theory Spec2Isabelle
  imports Main "HOL-Library.Multiset"
begin

section \<open>The quiz session engine of bot.py\<close>

text \<open>
  The bot keeps one dictionary per user (\<open>context.user_data\<close>) with the keys
  \<open>"session"\<close> and \<open>"timer_job"\<close>. Handlers mutate it and send messages. Here every
  handler is a function from the user's data to a triple: the data as the handler left
  it, the messages it sent (in order), and the exception that ended it, if any. A Python
  exception does not undo earlier assignments, so the first component is the state at
  the point of the raise. One user and one chat are modelled; \<open>chat_id\<close> and \<open>user_id\<close>
  of the source identify them and are left out.
\<close>

subsection \<open>Python values and library calls\<close>

datatype py_error = IndexError | ValueError | KeyError | ZeroDivisionError

text \<open>
  \<open>xs[k]\<close>: an index from \<open>-len(xs)\<close> up to \<open>-1\<close> counts from the end; an index outside
  \<open>-len(xs) .. len(xs) - 1\<close> raises \<open>IndexError\<close>.
\<close>

definition py_index :: "'a list \<Rightarrow> int \<Rightarrow> py_error + 'a" where
  "py_index xs k =
     (if 0 \<le> k \<and> k < int (length xs) then Inr (xs ! nat k)
      else if k < 0 \<and> - int (length xs) \<le> k then Inr (xs ! nat (int (length xs) + k))
      else Inl IndexError)"

text \<open>\<open>xs.index(x)\<close>: the first position holding a value equal to \<open>x\<close>.\<close>

fun list_index :: "'a list \<Rightarrow> 'a \<Rightarrow> py_error + int" where
  "list_index [] x = Inl ValueError"
| "list_index (y # ys) x =
     (if y = x then Inr 0
      else (case list_index ys x of Inl e \<Rightarrow> Inl e | Inr k \<Rightarrow> Inr (k + 1)))"

text \<open>
  The outcome of a random draw is a parameter. \<open>random.shuffle(xs)\<close> rearranges \<open>xs\<close>;
  the drawn arrangement is given as the list \<open>perm\<close> of source positions: position \<open>k\<close>
  of the result holds what was at position \<open>perm ! k\<close>. The library draws a permutation
  of \<open>range(len(xs))\<close>, which is \<open>is_perm perm (length xs)\<close>.
  \<open>random.sample(population, k)\<close> raises \<open>ValueError\<close> unless \<open>0 \<le> k \<le> len(population)\<close>
  and otherwise returns \<open>k\<close> elements from distinct positions: the first \<open>k\<close> positions of
  the drawn permutation.
\<close>

definition is_perm :: "nat list \<Rightarrow> nat \<Rightarrow> bool" where
  "is_perm perm n = (length perm = n \<and> distinct perm \<and> list_all (\<lambda>j. j < n) perm)"

definition random_shuffle :: "nat list \<Rightarrow> 'a list \<Rightarrow> 'a list" where
  "random_shuffle perm xs = map (\<lambda>j. xs ! j) perm"

definition random_sample :: "nat list \<Rightarrow> 'a list \<Rightarrow> int \<Rightarrow> py_error + 'a list" where
  "random_sample perm population k =
     (if 0 \<le> k \<and> k \<le> int (length population)
      then Inr (map (\<lambda>j. population ! j) (take (nat k) perm))
      else Inl ValueError)"

text \<open>
  A handler makes its random calls in a fixed order; \<open>tape\<close> lists their outcomes in
  that order and \<open>draw tape k\<close> is the outcome of call number \<open>k\<close>.
\<close>

definition draw :: "nat list list \<Rightarrow> nat \<Rightarrow> nat list" where
  "draw tape k = (if k < length tape then tape ! k else [])"

subsection \<open>Data model\<close>

definition PER_QUESTION_SECONDS :: int where
  "PER_QUESTION_SECONDS = 60"

definition FINAL_N :: int where
  "FINAL_N = 20"

text \<open>The dataclass \<open>Question\<close>; its field \<open>q\<close> is \<open>q_text\<close> here.\<close>

record question =
  q_text :: string
  options :: "string list"
  correct_index :: int
  explanation :: string

record block_file =
  bf_file :: string
  bf_title :: string
  bf_questions :: "question list"

text \<open>The module-level \<open>blocks_cache\<close>: file name to loaded block.\<close>

type_synonym cache = "string \<rightharpoonup> block_file"

text \<open>\<open>session["current"]\<close>: the keys \<open>"shuffled_opts"\<close> and \<open>"correct_index"\<close>.\<close>

record current =
  shuffled_opts :: "string list"
  cur_correct_index :: int

text \<open>
  \<open>context.user_data["session"]\<close>: the keys \<open>"title"\<close>, \<open>"questions"\<close>, \<open>"i"\<close>,
  \<open>"correct"\<close>, \<open>"qid"\<close> and, once a question was stored, \<open>"current"\<close>.
\<close>

record session =
  s_title :: string
  s_questions :: "question list"
  s_i :: int
  s_correct :: int
  s_qid :: int
  s_current :: "current option"

text \<open>
  \<open>context.user_data\<close>. The timer job is kept as the \<open>qid\<close> in its data; \<open>None\<close> is a
  missing key or a stored \<open>None\<close>.
\<close>

record user_data =
  ud_session :: "session option"
  ud_timer_job :: "int option"

record main_block =
  mb_key :: string
  mb_title :: string
  mb_files :: "string list"

text \<open>Titles and labels are Ukrainian in the source; they are transliterated.\<close>

definition MAIN_BLOCKS :: "main_block list" where
  "MAIN_BLOCKS =
     [\<lparr>mb_key = ''b1'', mb_title = ''1 blok - Audyt'', mb_files = [''block1_audit.json'']\<rparr>,
      \<lparr>mb_key = ''b2'', mb_title = ''2 blok - Zakonodavstvo'',
       mb_files = [''block2_1_constitution.json'', ''block2_2_civil_service.json'',
                   ''block2_3_mku.json'', ''block2_4_corruption.json'']\<rparr>,
      \<lparr>mb_key = ''b3'', mb_title = ''3 blok - Mytna vartist'', mb_files = [''block3_value.json'']\<rparr>,
      \<lparr>mb_key = ''b4'', mb_title = ''4 blok - Pokhodzhennia'', mb_files = [''block4_origin.json'']\<rparr>,
      \<lparr>mb_key = ''b5'', mb_title = ''5 blok - Platezhi'', mb_files = [''block5_payments.json'']\<rparr>]"

definition SUBBLOCK_LABELS :: "(string \<times> string) list" where
  "SUBBLOCK_LABELS =
     [(''block2_1_constitution.json'', ''2.1 Konstytutsiia''),
      (''block2_2_civil_service.json'', ''2.2 Derzhsluzhba''),
      (''block2_3_mku.json'', ''2.3 MKU''),
      (''block2_4_corruption.json'', ''2.4 Koruptsiia'')]"

text \<open>\<open>SUBBLOCK_LABELS.get(fn, default)\<close>.\<close>

definition subblock_label :: "string \<Rightarrow> string \<Rightarrow> string" where
  "subblock_label fn dflt = (case map_of SUBBLOCK_LABELS fn of None \<Rightarrow> dflt | Some l \<Rightarrow> l)"

text \<open>\<open>next((x for x in MAIN_BLOCKS if x["key"] == block_key), None)\<close>.\<close>

definition find_block :: "string \<Rightarrow> main_block option" where
  "find_block block_key = find (\<lambda>x. mb_key x = block_key) MAIN_BLOCKS"

subsection \<open>Loading: the checks of \<open>load_json_block\<close>\<close>

text \<open>
  One entry of the JSON list \<open>"questions"\<close> after the defaults, \<open>strip()\<close> and \<open>int()\<close>
  of the loop body were applied.
\<close>

record raw_item =
  item_q :: string
  item_options :: "string list"
  item_correct_index :: int
  item_explanation :: string

fun load_questions :: "raw_item list \<Rightarrow> question list" where
  "load_questions [] = []"
| "load_questions (item # items) =
     (if item_q item = [] \<or> length (item_options item) < 2 then load_questions items
      else
        (let ci = item_correct_index item;
             ci' = (if ci < 0 \<or> ci \<ge> int (length (item_options item)) then 0 else ci)
         in \<lparr>q_text = item_q item, options = item_options item, correct_index = ci',
              explanation = item_explanation item\<rparr> # load_questions items))"

text \<open>What the loader guarantees of every question it keeps.\<close>

definition wf_question :: "question \<Rightarrow> bool" where
  "wf_question qu =
     (q_text qu \<noteq> [] \<and> 2 \<le> length (options qu) \<and>
      0 \<le> correct_index qu \<and> correct_index qu < int (length (options qu)))"

subsection \<open>Messages\<close>

text \<open>
  The parsed forms of \<open>callback_data\<close>: \<open>"noop"\<close>, \<open>"back"\<close>, \<open>"menu|key"\<close>,
  \<open>"submenu|file"\<close>, \<open>"quit"\<close>, \<open>"global_final"\<close>, \<open>"start|key|mode"\<close>,
  \<open>"startfile|file|mode"\<close>, \<open>"ans|qid|index"\<close>, and any other text.
\<close>

datatype callback =
    Cb_noop
  | Cb_back
  | Cb_menu string
  | Cb_submenu string
  | Cb_quit
  | Cb_global_final
  | Cb_start string string
  | Cb_startfile string string
  | Cb_ans int int
  | Cb_other

record button =
  bt_text :: string
  bt_callback :: callback

text \<open>
  The percentage of the summary. \<open>round(100.0 * correct / total, 1)\<close> is a float; it is
  kept as the two integers it is computed from, and its digits are not modelled.
\<close>

datatype pct = Pct_zero | Pct_round1 int nat

text \<open>The texts the bot sends, one constructor per text, with the values filled in.\<close>

datatype msg =
    Main_menu
  | Block2_menu "string list"
  | Block_menu string
  | Subblock_file_not_found
  | Subblock_menu string
  | Test_stopped
  | Starting_final_test
  | No_questions_in_block
  | Starting_test
  | Subblock_not_found
  | Session_not_active
  | Question_not_active
  | Answer_correct char string
  | Answer_incorrect char string char string
  | Unknown_command
  | Time_is_up char string
  | Next_question
  | Question_msg string int nat string string "button list list"
  | Test_finished int nat pct

type_synonym result = "user_data \<times> msg list \<times> py_error option"

text \<open>Continue with the value of a library call, or stop with its exception.\<close>

definition or_raise :: "user_data \<Rightarrow> py_error + 'a \<Rightarrow> ('a \<Rightarrow> result) \<Rightarrow> result" where
  "or_raise ud r k = (case r of Inl e \<Rightarrow> (ud, [], Some e) | Inr v \<Rightarrow> k v)"

text \<open>Messages sent before the rest of a handler runs.\<close>

definition after_sending :: "msg list \<Rightarrow> result \<Rightarrow> result" where
  "after_sending ms r = (case r of (ud, out, err) \<Rightarrow> (ud, ms @ out, err))"

subsection \<open>Utilities\<close>

definition session_cancel_timer :: "user_data \<Rightarrow> user_data" where
  "session_cancel_timer ud = ud\<lparr>ud_timer_job := None\<rparr>"

definition letters :: string where
  "letters = ''ABCDEFGHIJKLMNOPQRSTUVWXYZ''"

fun fmt_lines :: "nat \<Rightarrow> string list \<Rightarrow> py_error + string list" where
  "fmt_lines k [] = Inr []"
| "fmt_lines k (opt # opts) =
     (case py_index letters (int k) of
        Inl e \<Rightarrow> Inl e
      | Inr l \<Rightarrow>
          (case fmt_lines (Suc k) opts of
             Inl e \<Rightarrow> Inl e
           | Inr ls \<Rightarrow> Inr ((l # ''. '' @ opt) # ls)))"

fun join_lines :: "string list \<Rightarrow> string" where
  "join_lines [] = []"
| "join_lines [l] = l"
| "join_lines (l # ls) = l @ [CHR 0x0A] @ join_lines ls"

definition fmt_options_with_letters :: "string list \<Rightarrow> py_error + string" where
  "fmt_options_with_letters opts =
     (case fmt_lines 0 opts of Inl e \<Rightarrow> Inl e | Inr ls \<Rightarrow> Inr (join_lines ls))"

text \<open>The loop \<open>for i in range(n)\<close> of \<open>build_answer_keyboard\<close>, from \<open>k\<close> on.\<close>

fun answer_row :: "nat \<Rightarrow> nat \<Rightarrow> int \<Rightarrow> py_error + button list" where
  "answer_row k 0 qid = Inr []"
| "answer_row k (Suc n) qid =
     (case py_index letters (int k) of
        Inl e \<Rightarrow> Inl e
      | Inr l \<Rightarrow>
          (case answer_row (Suc k) n qid of
             Inl e \<Rightarrow> Inl e
           | Inr bs \<Rightarrow> Inr (\<lparr>bt_text = [l], bt_callback = Cb_ans qid (int k)\<rparr> # bs)))"

fun rows_of_6 :: "'a list \<Rightarrow> 'a list list" where
  "rows_of_6 [] = []"
| "rows_of_6 (x # xs) = take 6 (x # xs) # rows_of_6 (drop 6 (x # xs))"

definition build_answer_keyboard :: "nat \<Rightarrow> int \<Rightarrow> py_error + button list list" where
  "build_answer_keyboard n qid =
     (case answer_row 0 n qid of
        Inl e \<Rightarrow> Inl e
      | Inr row \<Rightarrow>
          Inr (rows_of_6 row @ [[\<lparr>bt_text = ''Zavershyty test'', bt_callback = Cb_quit\<rparr>]]))"

definition pick_random :: "nat list \<Rightarrow> 'a list \<Rightarrow> int \<Rightarrow> py_error + 'a list" where
  "pick_random perm questions n =
     (if n \<ge> int (length questions) then random_sample perm questions (int (length questions))
      else random_sample perm questions n)"

fun merge_questions :: "string list \<Rightarrow> cache \<Rightarrow> question list" where
  "merge_questions [] blocks = []"
| "merge_questions (fn # fns) blocks =
     (case blocks fn of None \<Rightarrow> [] | Some bf \<Rightarrow> bf_questions bf) @ merge_questions fns blocks"

subsection \<open>Test engine\<close>

definition build_test_questions ::
    "cache \<Rightarrow> nat list \<Rightarrow> string \<Rightarrow> string option \<Rightarrow> string option
     \<Rightarrow> py_error + (string \<times> question list)" where
  "build_test_questions blocks perm mode block_key subfile =
     (case (case subfile of None \<Rightarrow> None | Some f \<Rightarrow> if f = [] then None else Some f) of
        Some f \<Rightarrow>
          (case blocks f of
             None \<Rightarrow> Inl KeyError
           | Some bf \<Rightarrow>
               (let base = bf_questions bf in
                if mode = ''final''
                then (case pick_random perm base FINAL_N of
                        Inl e \<Rightarrow> Inl e
                      | Inr qs \<Rightarrow> Inr (subblock_label f (bf_title bf) @ '' - finalnyi (20)'', qs))
                else (case random_sample perm base (int (length base)) of
                        Inl e \<Rightarrow> Inl e
                      | Inr qs \<Rightarrow> Inr (subblock_label f (bf_title bf) @ '' - povnyi'', qs))))
      | None \<Rightarrow>
          (case (case block_key of None \<Rightarrow> None | Some k \<Rightarrow> find_block k) of
             None \<Rightarrow> Inr ([], [])
           | Some b \<Rightarrow>
               (let pool = merge_questions (mb_files b) blocks in
                if mode = ''final''
                then (case pick_random perm pool FINAL_N of
                        Inl e \<Rightarrow> Inl e
                      | Inr qs \<Rightarrow> Inr (mb_title b @ '' - finalnyi (20)'', qs))
                else (case random_sample perm pool (int (length pool)) of
                        Inl e \<Rightarrow> Inl e
                      | Inr qs \<Rightarrow> Inr (mb_title b @ '' - povnyi'', qs)))))"

definition start_session :: "user_data \<Rightarrow> string \<Rightarrow> question list \<Rightarrow> user_data" where
  "start_session ud title questions =
     ud\<lparr>ud_session :=
          Some \<lparr>s_title = title, s_questions = questions, s_i = 0, s_correct = 0, s_qid = 0,
                s_current = None\<rparr>\<rparr>"

text \<open>\<open>round(100.0 * correct / total, 1)\<close>: the division raises when \<open>total\<close> is 0.\<close>

definition round1_percent :: "int \<Rightarrow> nat \<Rightarrow> py_error + pct" where
  "round1_percent correct n_total =
     (if n_total = 0 then Inl ZeroDivisionError else Inr (Pct_round1 correct n_total))"

text \<open>\<open>round(100.0 * correct / total, 1) if total else 0.0\<close>.\<close>

definition summary_pct :: "int \<Rightarrow> nat \<Rightarrow> py_error + pct" where
  "summary_pct correct n_total = (if n_total \<noteq> 0 then round1_percent correct n_total else Inr Pct_zero)"

definition finish_session :: "user_data \<Rightarrow> result" where
  "finish_session ud =
     (let ud1 = session_cancel_timer ud in
      case ud_session ud1 of
        None \<Rightarrow> (ud1, [], None)
      | Some s \<Rightarrow>
          (let n_total = length (s_questions s); correct = s_correct s in
           or_raise ud1 (summary_pct correct n_total) (\<lambda>p.
             (ud1\<lparr>ud_session := None\<rparr>, [Test_finished correct n_total p], None))))"

text \<open>
  Both \<open>send_question\<close> and \<open>send_question_direct\<close> end with the same statements:
  store \<open>session["current"]\<close>, add one to \<open>session["qid"]\<close>, build the text (which reads
  \<open>letters\<close>), schedule the timer with the new \<open>qid\<close>, build the keyboard and send.
\<close>

definition store_and_send ::
    "user_data \<Rightarrow> session \<Rightarrow> question \<Rightarrow> string list \<Rightarrow> int \<Rightarrow> result" where
  "store_and_send ud1 s qu shuffled correct_new_index =
     (let s1 = s\<lparr>s_current := Some \<lparr>shuffled_opts = shuffled,
                                      cur_correct_index = correct_new_index\<rparr>,
                 s_qid := s_qid s + 1\<rparr>;
          qid = s_qid s1;
          ud2 = ud1\<lparr>ud_session := Some s1\<rparr>
      in
      or_raise ud2 (fmt_options_with_letters shuffled) (\<lambda>body.
        (let ud3 = ud2\<lparr>ud_timer_job := Some qid\<rparr> in
         or_raise ud3 (build_answer_keyboard (length shuffled) qid) (\<lambda>kb.
           (ud3,
            [Question_msg (s_title s) (s_i s + 1) (length (s_questions s)) (q_text qu) body kb],
            None)))))"

text \<open>
  \<open>send_question\<close>, reached from a callback. \<open>perm\<close> is the outcome of
  \<open>random.shuffle(shuffled_opts)\<close>. The new index of the correct option is found by
  searching the shuffled texts for the text of the correct option.
\<close>

definition send_question :: "nat list \<Rightarrow> user_data \<Rightarrow> result" where
  "send_question perm ud =
     (case ud_session ud of
        None \<Rightarrow> (ud, [], None)
      | Some s \<Rightarrow>
          if s_i s \<ge> int (length (s_questions s)) then finish_session ud
          else
            (let ud1 = session_cancel_timer ud in
             or_raise ud1 (py_index (s_questions s) (s_i s)) (\<lambda>qu.
             or_raise ud1 (py_index (options qu) (correct_index qu)) (\<lambda>correct_text.
               (let shuffled = random_shuffle perm (options qu) in
                or_raise ud1 (list_index shuffled correct_text) (\<lambda>correct_new_index.
                  store_and_send ud1 s qu shuffled correct_new_index))))))"

text \<open>\<open>[q.options[j] for j in order]\<close>.\<close>

fun gather :: "'a list \<Rightarrow> nat list \<Rightarrow> py_error + 'a list" where
  "gather xs [] = Inr []"
| "gather xs (j # js) =
     (case py_index xs (int j) of
        Inl e \<Rightarrow> Inl e
      | Inr v \<Rightarrow> (case gather xs js of Inl e \<Rightarrow> Inl e | Inr vs \<Rightarrow> Inr (v # vs)))"

text \<open>
  \<open>send_question_direct\<close>, reached from the timer. \<open>perm\<close> is the outcome of
  \<open>random.shuffle(order)\<close> on \<open>order = list(range(len(q.options)))\<close>. The new index of the
  correct option is the place of \<open>q.correct_index\<close> in the shuffled \<open>order\<close>. The session
  is removed at the end of the list without cancelling the timer.
\<close>

definition send_question_direct :: "nat list \<Rightarrow> user_data \<Rightarrow> result" where
  "send_question_direct perm ud =
     (case ud_session ud of
        None \<Rightarrow> (ud, [], None)
      | Some s \<Rightarrow>
          if s_i s \<ge> int (length (s_questions s)) then
            (let n_total = length (s_questions s); correct = s_correct s in
             or_raise ud (summary_pct correct n_total) (\<lambda>p.
               (ud\<lparr>ud_session := None\<rparr>, [Test_finished correct n_total p], None)))
          else
            (let ud1 = ud\<lparr>ud_timer_job := None\<rparr> in
             or_raise ud1 (py_index (s_questions s) (s_i s)) (\<lambda>qu.
               (let order = random_shuffle perm [0..<length (options qu)] in
                or_raise ud1 (gather (options qu) order) (\<lambda>shuffled.
                or_raise ud1 (list_index (map int order) (correct_index qu)) (\<lambda>correct_new_index.
                  store_and_send ud1 s qu shuffled correct_new_index))))))"

text \<open>
  \<open>cur = session.get("current") or {}\<close>, then \<open>cur.get("shuffled_opts") or []\<close> and
  \<open>int(cur.get("correct_index", 0))\<close>.
\<close>

definition cur_opts :: "session \<Rightarrow> string list" where
  "cur_opts s = (case s_current s of None \<Rightarrow> [] | Some c \<Rightarrow> shuffled_opts c)"

definition cur_ci :: "session \<Rightarrow> int" where
  "cur_ci s = (case s_current s of None \<Rightarrow> 0 | Some c \<Rightarrow> cur_correct_index c)"

text \<open>\<open>opts[k] if 0 <= k < len(opts) else ""\<close>.\<close>

definition text_or_empty :: "string list \<Rightarrow> int \<Rightarrow> string" where
  "text_or_empty opts k = (if 0 \<le> k \<and> k < int (length opts) then opts ! nat k else [])"

text \<open>
  \<open>timeout_question\<close>: the job of the timer, with the \<open>qid\<close> of its data. \<open>perm\<close> is the
  draw of the \<open>send_question_direct\<close> it ends with. \<open>if not udata: return\<close> is covered by
  the test of the session: a dictionary without keys has no session.
\<close>

definition timeout_question :: "nat list \<Rightarrow> user_data \<Rightarrow> int \<Rightarrow> result" where
  "timeout_question perm ud qid =
     (case ud_session ud of
        None \<Rightarrow> (ud, [], None)
      | Some s \<Rightarrow>
          if s_qid s \<noteq> qid then (ud, [], None)
          else
            (let opts = cur_opts s; ci = cur_ci s; correct_text = text_or_empty opts ci in
             or_raise ud (py_index letters ci) (\<lambda>l.
               after_sending [Time_is_up l correct_text, Next_question]
                 (send_question_direct perm (ud\<lparr>ud_session := Some (s\<lparr>s_i := s_i s + 1\<rparr>)\<rparr>)))))"

subsection \<open>Menus\<close>

definition show_main_menu :: "user_data \<Rightarrow> result" where
  "show_main_menu ud = ((session_cancel_timer ud)\<lparr>ud_session := None\<rparr>, [Main_menu], None)"

definition show_block_menu :: "cache \<Rightarrow> user_data \<Rightarrow> string \<Rightarrow> result" where
  "show_block_menu blocks ud block_key =
     (let ud1 = (session_cancel_timer ud)\<lparr>ud_session := None\<rparr> in
      case find_block block_key of
        None \<Rightarrow> show_main_menu ud1
      | Some b \<Rightarrow>
          if block_key = ''b2'' then
            (ud1,
             [Block2_menu
                (map (\<lambda>fn. subblock_label fn
                              (case blocks fn of None \<Rightarrow> fn | Some bf \<Rightarrow> bf_title bf))
                   (mb_files b))],
             None)
          else (ud1, [Block_menu (mb_title b)], None))"

definition show_subblock_menu :: "cache \<Rightarrow> user_data \<Rightarrow> string \<Rightarrow> result" where
  "show_subblock_menu blocks ud subfile =
     (let ud1 = (session_cancel_timer ud)\<lparr>ud_session := None\<rparr> in
      case blocks subfile of
        None \<Rightarrow> (ud1, [Subblock_file_not_found], None)
      | Some bf \<Rightarrow> (ud1, [Subblock_menu (subblock_label subfile (bf_title bf))], None))"

definition cmd_start :: "user_data \<Rightarrow> result" where
  "cmd_start ud = show_main_menu ud"

subsection \<open>The callback handler\<close>

text \<open>
  The loop of \<open>"global_final"\<close> over \<open>MAIN_BLOCKS\<close>: \<open>pick_random\<close> of each block's pool,
  appended; block number \<open>k\<close> uses draw \<open>k\<close>.
\<close>

fun final_pools :: "cache \<Rightarrow> nat list list \<Rightarrow> nat \<Rightarrow> main_block list \<Rightarrow> py_error + question list" where
  "final_pools blocks tape k [] = Inr []"
| "final_pools blocks tape k (b # bs) =
     (case pick_random (draw tape k) (merge_questions (mb_files b) blocks) FINAL_N of
        Inl e \<Rightarrow> Inl e
      | Inr qs \<Rightarrow>
          (case final_pools blocks tape (Suc k) bs of
             Inl e \<Rightarrow> Inl e
           | Inr rest \<Rightarrow> Inr (qs @ rest)))"

text \<open>
  The branch \<open>"ans|qid|index"\<close> of \<open>on_callback\<close>, from the point where \<open>qid\<close> and \<open>idx\<close>
  are parsed. In the f-string of the wrong answer \<open>letters[idx]\<close> is read before
  \<open>letters[ci]\<close>.
\<close>

definition on_answer :: "nat list \<Rightarrow> user_data \<Rightarrow> int \<Rightarrow> int \<Rightarrow> result" where
  "on_answer perm ud qid idx =
     (case ud_session ud of
        None \<Rightarrow> (ud, [Session_not_active], None)
      | Some s \<Rightarrow>
          if s_qid s \<noteq> qid then (ud, [Question_not_active], None)
          else
            (let ud1 = session_cancel_timer ud;
                 opts = cur_opts s; ci = cur_ci s; correct_text = text_or_empty opts ci
             in
             if idx = ci then
               (let s1 = s\<lparr>s_correct := s_correct s + 1\<rparr>;
                    ud2 = ud1\<lparr>ud_session := Some s1\<rparr>
                in
                or_raise ud2 (py_index letters ci) (\<lambda>l.
                  after_sending [Answer_correct l correct_text]
                    (send_question perm (ud2\<lparr>ud_session := Some (s1\<lparr>s_i := s_i s1 + 1\<rparr>)\<rparr>))))
             else
               (let chosen = text_or_empty opts idx in
                or_raise ud1 (py_index letters idx) (\<lambda>li.
                or_raise ud1 (py_index letters ci) (\<lambda>l.
                  after_sending [Answer_incorrect li chosen l correct_text]
                    (send_question perm (ud1\<lparr>ud_session := Some (s\<lparr>s_i := s_i s + 1\<rparr>)\<rparr>)))))))"

text \<open>
  \<open>on_callback\<close> on parsed callback data. \<open>query.answer()\<close> acknowledges the press and
  sends no message.
\<close>

definition on_callback :: "cache \<Rightarrow> nat list list \<Rightarrow> user_data \<Rightarrow> callback \<Rightarrow> result" where
  "on_callback blocks tape ud cb =
     (case cb of
        Cb_noop \<Rightarrow> (ud, [], None)
      | Cb_back \<Rightarrow> show_main_menu ud
      | Cb_menu block_key \<Rightarrow> show_block_menu blocks ud block_key
      | Cb_submenu subfile \<Rightarrow> show_subblock_menu blocks ud subfile
      | Cb_quit \<Rightarrow>
          after_sending [Test_stopped]
            (show_main_menu (session_cancel_timer (ud\<lparr>ud_session := None\<rparr>)))
      | Cb_global_final \<Rightarrow>
          or_raise ud (final_pools blocks tape 0 MAIN_BLOCKS) (\<lambda>pools.
            (let pools' = random_shuffle (draw tape (length MAIN_BLOCKS)) pools;
                 title = ''Zahalnyi finalnyi test (20 z kozhnoho bloku)''
             in
             after_sending [Starting_final_test]
               (send_question (draw tape (Suc (length MAIN_BLOCKS)))
                  (start_session ud title pools'))))
      | Cb_start block_key mode \<Rightarrow>
          or_raise ud (build_test_questions blocks (draw tape 0) mode (Some block_key) None)
            (\<lambda>(title, questions).
               if questions = [] then (ud, [No_questions_in_block], None)
               else
                 after_sending [Starting_test]
                   (send_question (draw tape 1) (start_session ud title questions)))
      | Cb_startfile subfile mode \<Rightarrow>
          if blocks subfile = None then (ud, [Subblock_not_found], None)
          else
            or_raise ud (build_test_questions blocks (draw tape 0) mode None (Some subfile))
              (\<lambda>(title, questions).
                 after_sending [Starting_test]
                   (send_question (draw tape 1) (start_session ud title questions)))
      | Cb_ans qid idx \<Rightarrow> on_answer (draw tape 0) ud qid idx
      | Cb_other \<Rightarrow> (ud, [Unknown_command], None))"

subsection \<open>Events and runs\<close>

text \<open>
  What reaches the bot: the command \<open>/start\<close>, a button press, or a timer job firing
  with the \<open>qid\<close> it was scheduled with.
\<close>

datatype event = Command_start | Callback callback | Timer_fired int

definition on_event :: "cache \<Rightarrow> nat list list \<Rightarrow> user_data \<Rightarrow> event \<Rightarrow> result" where
  "on_event blocks tape ud ev =
     (case ev of
        Command_start \<Rightarrow> cmd_start ud
      | Callback cb \<Rightarrow> on_callback blocks tape ud cb
      | Timer_fired qid \<Rightarrow> timeout_question (draw tape 0) ud qid)"

text \<open>
  A run handles events one after the other, each with the tape of its random draws. An
  exception ends the handler that raised it, not the bot: the next event finds the data
  as that handler left it. The run returns the final data, all messages sent and all
  exceptions raised.
\<close>

fun run :: "cache \<Rightarrow> user_data \<Rightarrow> (nat list list \<times> event) list
            \<Rightarrow> user_data \<times> msg list \<times> py_error list" where
  "run blocks ud [] = (ud, [], [])"
| "run blocks ud ((tape, ev) # evs) =
     (case on_event blocks tape ud ev of
        (ud1, out1, err1) \<Rightarrow>
          (case run blocks ud1 evs of
             (ud2, out2, errs) \<Rightarrow>
               (ud2, out1 @ out2, (case err1 of None \<Rightarrow> [] | Some e \<Rightarrow> [e]) @ errs)))"

definition no_user_data :: user_data where
  "no_user_data = \<lparr>ud_session = None, ud_timer_job = None\<rparr>"

subsection \<open>Observations used in the statements and proofs\<close>

text \<open>The three components of what a handler, or a run, returns.\<close>

definition state_of :: "user_data \<times> msg list \<times> 'e \<Rightarrow> user_data" where
  "state_of r = fst r"

definition sent :: "user_data \<times> msg list \<times> 'e \<Rightarrow> msg list" where
  "sent r = fst (snd r)"

definition raised :: "user_data \<times> msg list \<times> 'e \<Rightarrow> 'e" where
  "raised r = snd (snd r)"

text \<open>\<open>session["current"]\<close> as a handler left it.\<close>

definition stored_current :: "result \<Rightarrow> current option" where
  "stored_current r = (case ud_session (state_of r) of None \<Rightarrow> None | Some s \<Rightarrow> s_current s)"

text \<open>The bounds on the counters of a session, if there is one.\<close>

definition session_inv :: "user_data \<Rightarrow> bool" where
  "session_inv ud =
     (case ud_session ud of
        None \<Rightarrow> True
      | Some s \<Rightarrow> 0 \<le> s_correct s \<and> s_correct s \<le> s_i s \<and> s_i s \<le> int (length (s_questions s)))"

text \<open>The events that replace the session by a new one.\<close>

fun starts_session :: "event \<Rightarrow> bool" where
  "starts_session (Callback Cb_global_final) = True"
| "starts_session (Callback (Cb_start block_key mode)) = True"
| "starts_session (Callback (Cb_startfile subfile mode)) = True"
| "starts_session ev = False"

text \<open>
  The count of correct answers a handler leaves behind: that of the session, or, when
  the handler removed the session, the count in the summary it sent.
\<close>

fun summary_count :: "msg list \<Rightarrow> int option" where
  "summary_count [] = None"
| "summary_count (Test_finished c n p # ms) = Some c"
| "summary_count (m # ms) = summary_count ms"

definition score_after :: "result \<Rightarrow> int option" where
  "score_after r =
     (case ud_session (state_of r) of
        Some s \<Rightarrow> Some (s_correct s)
      | None \<Rightarrow> summary_count (sent r))"

text \<open>
  The \<open>qid\<close> a question was presented with: the one in the callback data of its answer
  buttons (read off the first one). \<open>presented_qids\<close> lists them for the questions among
  the messages, in the order sent.
\<close>

fun button_qid :: "button \<Rightarrow> int option" where
  "button_qid b = (case bt_callback b of Cb_ans qid k \<Rightarrow> Some qid | _ \<Rightarrow> None)"

definition keyboard_qid :: "button list list \<Rightarrow> int option" where
  "keyboard_qid kb = (case List.map_filter button_qid (concat kb) of [] \<Rightarrow> None | k # ks \<Rightarrow> Some k)"

fun msg_qid :: "msg \<Rightarrow> int option" where
  "msg_qid (Question_msg t n m p b kb) = keyboard_qid kb"
| "msg_qid other = None"

definition presented_qids :: "msg list \<Rightarrow> int list" where
  "presented_qids ms = List.map_filter msg_qid ms"

text \<open>
  What presenting the next question, or finishing, leaves behind for a session \<open>s\<close>: the
  session is gone after the summary with its count, or it is kept with the same
  counters and list; its \<open>qid\<close> is one more and the question was sent with it, unless an
  exception ended the handler before or after the new \<open>qid\<close> was stored.
\<close>

definition next_outcome :: "session \<Rightarrow> result \<Rightarrow> bool" where
  "next_outcome s r =
     (case ud_session (state_of r) of
        None \<Rightarrow>
          int (length (s_questions s)) \<le> s_i s \<and> raised r = None \<and>
          presented_qids (sent r) = [] \<and> summary_count (sent r) = Some (s_correct s)
      | Some s' \<Rightarrow>
          s_correct s' = s_correct s \<and> s_i s' = s_i s \<and> s_questions s' = s_questions s \<and>
          s_i s < int (length (s_questions s)) \<and> summary_count (sent r) = None \<and>
          (if raised r = None
           then s_qid s' = s_qid s + 1 \<and> presented_qids (sent r) = [s_qid s + 1] \<and>
                ud_timer_job (state_of r) = Some (s_qid s + 1)
           else presented_qids (sent r) = [] \<and>
                (s_qid s' = s_qid s \<or> s_qid s' = s_qid s + 1)))"

text \<open>
  What one handler that starts no session does to the \<open>qid\<close> and the count of a session
  \<open>s\<close>: it presents nothing or one question with the next \<open>qid\<close>, and a session it leaves
  has a \<open>qid\<close> and a count that are not smaller.
\<close>

definition qid_step :: "session \<Rightarrow> result \<Rightarrow> bool" where
  "qid_step s r =
     ((presented_qids (sent r) = [] \<or> presented_qids (sent r) = [s_qid s + 1]) \<and>
      (case ud_session (state_of r) of
         None \<Rightarrow> presented_qids (sent r) = []
       | Some s' \<Rightarrow>
           s_qid s \<le> s_qid s' \<and> s_correct s \<le> s_correct s' \<and>
           (presented_qids (sent r) = [s_qid s + 1] \<longrightarrow> s_qid s' = s_qid s + 1)))"

subsection \<open>Example data\<close>

definition capitals_question :: question where
  "capitals_question =
     \<lparr>q_text = ''Capital of France?'', options = [''Paris'', ''London'', ''Berlin''],
      correct_index = 0, explanation = []\<rparr>"

text \<open>Two options with the same text; the second one is the correct one.\<close>

definition twin_question :: question where
  "twin_question =
     \<lparr>q_text = ''Pick one'', options = [''a'', ''a'', ''b''], correct_index = 1,
      explanation = []\<rparr>"

text \<open>A session whose first question was presented with the options in the order 2, 0, 1.\<close>

definition example_session :: session where
  "example_session =
     \<lparr>s_title = ''T'', s_questions = [capitals_question, twin_question, capitals_question],
      s_i = 0,
      s_correct = 0, s_qid = 1,
      s_current =
        Some \<lparr>shuffled_opts = [''Berlin'', ''Paris'', ''London''], cur_correct_index = 1\<rparr>\<rparr>"

definition example_data :: user_data where
  "example_data = \<lparr>ud_session = Some example_session, ud_timer_job = Some 1\<rparr>"

text \<open>A cache with one block of two questions and one file without questions.\<close>

definition example_blocks :: cache where
  "example_blocks =
     [''block1_audit.json'' \<mapsto>
        \<lparr>bf_file = ''block1_audit.json'', bf_title = ''Audit'',
         bf_questions = [capitals_question, twin_question]\<rparr>,
      ''empty.json'' \<mapsto>
        \<lparr>bf_file = ''empty.json'', bf_title = ''Empty'', bf_questions = []\<rparr>]"

text \<open>A session that is about to present the question with the two equal texts.\<close>

definition twin_data :: user_data where
  "twin_data =
     \<lparr>ud_session =
        Some \<lparr>s_title = ''T'', s_questions = [twin_question], s_i = 0, s_correct = 0,
              s_qid = 0, s_current = None\<rparr>,
      ud_timer_job = None\<rparr>"

text \<open>A session started on an empty list of questions.\<close>

definition empty_session_data :: user_data where
  "empty_session_data =
     \<lparr>ud_session =
        Some \<lparr>s_title = ''E'', s_questions = [], s_i = 0, s_correct = 0, s_qid = 0,
              s_current = None\<rparr>,
      ud_timer_job = None\<rparr>"

text \<open>
  A run from nothing: the full test of block 1 is started (the questions drawn in the
  order 1, 0; the options of the first one in the order 2, 0, 1) and the first question
  is answered with the button of index 1.
\<close>

definition example_run :: "(nat list list \<times> event) list" where
  "example_run =
     [([[1, 0], [2, 0, 1]], Callback (Cb_start ''b1'' ''full'')),
      ([[0, 1, 2]], Callback (Cb_ans 1 1))]"

text \<open>
  Events for the example session: a correct answer to question 1, the timer of
  question 2, and a late press of a button of question 2.
\<close>

definition example_resolves :: "(nat list list \<times> event) list" where
  "example_resolves =
     [([[0, 1, 2]], Callback (Cb_ans 1 1)),
      ([[1, 0, 2]], Timer_fired 2),
      ([[0, 1, 2]], Callback (Cb_ans 2 0))]"

text \<open>
  A question with 27 options, one more than \<open>letters\<close> has: each letter and a last
  option, which is the correct one. The loader keeps it: it has a text, at least two options and a
  \<open>correct_index\<close> in range.
\<close>

definition wide_question :: question where
  "wide_question =
     \<lparr>q_text = ''Which one?'',
      options = map (\<lambda>c. [c]) letters @ [''none of these''],
      correct_index = 26, explanation = []\<rparr>"

definition wide_blocks :: cache where
  "wide_blocks =
     [''block3_value.json'' \<mapsto>
        \<lparr>bf_file = ''block3_value.json'', bf_title = ''Value'',
         bf_questions = [wide_question]\<rparr>]"

text \<open>The shuffle that leaves 27 options in their order.\<close>

definition keep_order_27 :: "nat list" where
  "keep_order_27 =
     [0, 1, 2, 3, 4, 5, 6, 7, 8, 9, 10, 11, 12, 13, 14, 15, 16, 17, 18, 19, 20, 21, 22, 23,
      24, 25, 26]"

text \<open>
  The full test of block 3 is started on that cache, with the options left in their
  order, and a press with index 26 for \<open>qid\<close> 1 arrives.
\<close>

definition wide_start :: "(nat list list \<times> event) list" where
  "wide_start = [([[0], keep_order_27], Callback (Cb_start ''b3'' ''full''))]"

definition wide_press :: "nat list list \<times> event" where
  "wide_press = ([], Callback (Cb_ans 1 26))"

section \<open>Lemmas\<close>

subsection \<open>Library calls\<close>

lemmas example_defs =
  capitals_question_def twin_question_def example_session_def example_data_def
  example_blocks_def no_user_data_def twin_data_def empty_session_data_def
  example_run_def example_resolves_def wide_question_def wide_blocks_def keep_order_27_def
  wide_start_def wide_press_def

lemmas engine_defs =
  send_question_def send_question_direct_def store_and_send_def finish_session_def
  session_cancel_timer_def or_raise_def after_sending_def summary_pct_def
  random_shuffle_def fmt_options_with_letters_def build_answer_keyboard_def
  py_index_def letters_def state_of_def sent_def raised_def stored_current_def
  cur_opts_def cur_ci_def text_or_empty_def

text \<open>Every question the loader keeps is well formed.\<close>

lemma load_questions_wf: "qu \<in> set (load_questions items) \<Longrightarrow> wf_question qu"
  by (induction items) (auto simp: wf_question_def Let_def split: if_splits)

lemma py_index_in_range:
  "0 \<le> k \<Longrightarrow> k < int (length xs) \<Longrightarrow> py_index xs k = Inr (xs ! nat k)"
  by (simp add: py_index_def)

lemma list_index_Inr:
  "list_index xs x = Inr k \<Longrightarrow>
     0 \<le> k \<and> nat k < length xs \<and> xs ! nat k = x \<and> (\<forall>j < nat k. xs ! j \<noteq> x)"
proof (induction xs arbitrary: k)
  case Nil
  then show ?case by simp
next
  case (Cons y ys)
  show ?case
  proof (cases "y = x")
    case True
    with Cons.prems show ?thesis by simp
  next
    case False
    with Cons.prems obtain k' where k': "list_index ys x = Inr k'" and k: "k = k' + 1"
      by (auto split: sum.splits)
    from Cons.IH [OF k'] have ih: "0 \<le> k'" "nat k' < length ys" "ys ! nat k' = x"
      "\<forall>j < nat k'. ys ! j \<noteq> x" by auto
    have nk: "nat k = Suc (nat k')" using ih(1) k by simp
    have "\<forall>j < nat k. (y # ys) ! j \<noteq> x"
    proof (intro allI impI)
      fix j assume "j < nat k"
      then show "(y # ys) ! j \<noteq> x"
        using False ih(4) nk by (cases j) auto
    qed
    then show ?thesis using ih nk k by simp
  qed
qed

lemma list_index_mem: "x \<in> set xs \<Longrightarrow> \<exists>k. list_index xs x = Inr k"
  by (induction xs) (auto split: sum.splits)

lemma is_perm_set: "is_perm perm n \<Longrightarrow> set perm = {..<n}"
proof -
  assume p: "is_perm perm n"
  then have sub: "set perm \<subseteq> {..<n}" by (auto simp: is_perm_def list_all_iff)
  have "card (set perm) = n" using p by (simp add: is_perm_def distinct_card)
  then show ?thesis using sub by (simp add: card_subset_eq)
qed

lemma is_perm_mset: "is_perm perm n \<Longrightarrow> mset perm = mset [0..<n]"
proof -
  assume p: "is_perm perm n"
  have s: "set perm = set [0..<n]" by (simp add: is_perm_set [OF p] atLeast0LessThan)
  have d: "distinct perm" using p by (simp add: is_perm_def)
  have d': "distinct [0..<n]" by simp
  from set_eq_iff_mset_eq_distinct [OF d d'] s show ?thesis by blast
qed

lemma mset_random_shuffle:
  assumes "is_perm perm (length xs)"
  shows "mset (random_shuffle perm xs) = mset xs"
proof -
  have "mset (random_shuffle perm xs) = image_mset (\<lambda>j. xs ! j) (mset perm)"
    by (simp add: random_shuffle_def)
  also have "\<dots> = image_mset (\<lambda>j. xs ! j) (mset [0..<length xs])"
    using is_perm_mset [OF assms] by simp
  also have "\<dots> = mset (map (\<lambda>j. xs ! j) [0..<length xs])" by simp
  also have "\<dots> = mset xs" by (simp add: map_nth)
  finally show ?thesis .
qed

lemma gather_in_range:
  "\<forall>j \<in> set js. j < length xs \<Longrightarrow> gather xs js = Inr (map (\<lambda>j. xs ! j) js)"
  by (induction js) (simp_all add: py_index_def)

lemma gather_length: "gather xs js = Inr vs \<Longrightarrow> length vs = length js"
  by (induction js arbitrary: vs) (auto split: sum.splits)

lemma random_shuffle_upt:
  "\<forall>j \<in> set perm. j < n \<Longrightarrow> random_shuffle perm [0..<n] = perm"
  by (simp add: random_shuffle_def map_idI)

lemma store_and_send_session:
  "ud_session (state_of (store_and_send ud1 s qu sh k)) =
     Some (s\<lparr>s_current := Some \<lparr>shuffled_opts = sh, cur_correct_index = k\<rparr>,
             s_qid := s_qid s + 1\<rparr>)"
  by (simp add: store_and_send_def or_raise_def state_of_def Let_def split: sum.splits)

lemma py_index_nat:
  "0 \<le> k \<Longrightarrow> nat k < length xs \<Longrightarrow> py_index xs k = Inr (xs ! nat k)"
  by (simp add: py_index_def nat_less_iff)

lemma wf_question_nat: "wf_question qu \<Longrightarrow> nat (correct_index qu) < length (options qu)"
  by (simp add: wf_question_def nat_less_iff)

subsection \<open>Presenting a question\<close>

lemma send_question_presents:
  assumes s: "ud_session ud = Some s"
    and i: "0 \<le> s_i s" "s_i s < int (length (s_questions s))"
    and qu: "qu = s_questions s ! nat (s_i s)"
    and wf: "wf_question qu"
    and p: "is_perm perm (length (options qu))"
  shows "\<exists>k. list_index (random_shuffle perm (options qu)) (options qu ! nat (correct_index qu)) = Inr k
           \<and> send_question perm ud =
               store_and_send (session_cancel_timer ud) s qu (random_shuffle perm (options qu)) k"
proof -
  let ?sh = "random_shuffle perm (options qu)"
  let ?ct = "options qu ! nat (correct_index qu)"
  have q: "py_index (s_questions s) (s_i s) = Inr qu"
    using i qu by (simp add: py_index_in_range)
  have c: "py_index (options qu) (correct_index qu) = Inr ?ct"
    using wf by (simp add: wf_question_def py_index_in_range)
  have "?ct \<in> set (options qu)" using wf_question_nat [OF wf] by simp
  moreover have "set ?sh = set (options qu)"
    using mset_random_shuffle [OF p] by (rule mset_eq_setD)
  ultimately have "?ct \<in> set ?sh" by simp
  from list_index_mem [OF this] obtain k where k: "list_index ?sh ?ct = Inr k" ..
  have "send_question perm ud = store_and_send (session_cancel_timer ud) s qu ?sh k"
    using s i q c k by (simp add: send_question_def or_raise_def Let_def)
  with k show ?thesis by blast
qed

lemma send_question_direct_presents:
  assumes s: "ud_session ud = Some s"
    and i: "0 \<le> s_i s" "s_i s < int (length (s_questions s))"
    and qu: "qu = s_questions s ! nat (s_i s)"
    and wf: "wf_question qu"
    and p: "is_perm perm (length (options qu))"
  shows "\<exists>k. list_index (map int perm) (correct_index qu) = Inr k
           \<and> send_question_direct perm ud =
               store_and_send (ud\<lparr>ud_timer_job := None\<rparr>) s qu (random_shuffle perm (options qu)) k"
proof -
  let ?sh = "random_shuffle perm (options qu)"
  have q: "py_index (s_questions s) (s_i s) = Inr qu"
    using i qu by (simp add: py_index_in_range)
  have r: "\<forall>j \<in> set perm. j < length (options qu)"
    using p by (simp add: is_perm_def list_all_iff)
  have o: "random_shuffle perm [0..<length (options qu)] = perm"
    using r by (rule random_shuffle_upt)
  have g: "gather (options qu) perm = Inr ?sh"
    using gather_in_range [OF r] by (simp add: random_shuffle_def)
  have mem: "nat (correct_index qu) \<in> set perm"
    using wf_question_nat [OF wf] is_perm_set [OF p] by simp
  have ci: "correct_index qu = int (nat (correct_index qu))"
    using wf by (simp add: wf_question_def)
  have "correct_index qu \<in> int ` set perm"
    by (subst ci) (rule imageI [OF mem])
  then have "correct_index qu \<in> set (map int perm)" by (simp only: set_map)
  from list_index_mem [OF this]
  obtain k where k: "list_index (map int perm) (correct_index qu) = Inr k" ..
  have "send_question_direct perm ud = store_and_send (ud\<lparr>ud_timer_job := None\<rparr>) s qu ?sh k"
    using s i q o g k by (simp add: send_question_direct_def or_raise_def Let_def)
  with k show ?thesis by blast
qed

lemma summary_pct_Inr:
  "summary_pct c n = Inr (if n = 0 then Pct_zero else Pct_round1 c n)"
  by (simp add: summary_pct_def round1_percent_def)

lemma finish_session_eq:
  "ud_session ud = Some s \<Longrightarrow>
   finish_session ud =
     (ud\<lparr>ud_timer_job := None, ud_session := None\<rparr>,
      [Test_finished (s_correct s) (length (s_questions s))
         (if length (s_questions s) = 0 then Pct_zero
          else Pct_round1 (s_correct s) (length (s_questions s)))],
      None)"
  by (simp add: finish_session_def session_cancel_timer_def summary_pct_Inr or_raise_def Let_def)

lemma answer_row_Suc:
  "answer_row k (Suc n) qid = Inr row \<Longrightarrow> \<exists>b bs. row = b # bs \<and> bt_callback b = Cb_ans qid (int k)"
  by (auto split: sum.splits)

lemma keyboard_qid_build:
  assumes "build_answer_keyboard n qid = Inr kb" and "0 < n"
  shows "keyboard_qid kb = Some qid"
proof -
  from assms(2) obtain n' where n: "n = Suc n'" by (cases n) auto
  from assms(1) obtain row where row: "answer_row 0 n qid = Inr row"
    and kb: "kb = rows_of_6 row @ [[\<lparr>bt_text = ''Zavershyty test'', bt_callback = Cb_quit\<rparr>]]"
    by (auto simp: build_answer_keyboard_def split: sum.splits)
  from answer_row_Suc [OF row [unfolded n]] obtain b bs
    where b: "row = b # bs" and cb: "bt_callback b = Cb_ans qid (int 0)" by blast
  show ?thesis
    by (simp add: kb b cb keyboard_qid_def map_filter_simps)
qed

lemma store_and_send_outcome:
  assumes "s_i s < int (length (s_questions s))" and "sh \<noteq> []"
  shows "next_outcome s (store_and_send ud1 s qu sh k)"
proof (cases "fmt_options_with_letters sh")
  case (Inl e)
  then show ?thesis using assms(1)
    by (simp add: store_and_send_def or_raise_def next_outcome_def state_of_def sent_def
        raised_def presented_qids_def map_filter_simps Let_def)
next
  case (Inr body)
  show ?thesis
  proof (cases "build_answer_keyboard (length sh) (s_qid s + 1)")
    case (Inl e)
    then show ?thesis using assms(1) Inr
      by (simp add: store_and_send_def or_raise_def next_outcome_def state_of_def sent_def
          raised_def presented_qids_def map_filter_simps Let_def)
  next
    case (Inr kb)
    from keyboard_qid_build [OF Inr] assms(2) have "keyboard_qid kb = Some (s_qid s + 1)" by simp
    then show ?thesis using assms(1) Inr \<open>fmt_options_with_letters sh = Inr body\<close>
      by (simp add: store_and_send_def or_raise_def next_outcome_def state_of_def sent_def
          raised_def presented_qids_def map_filter_simps Let_def)
  qed
qed

lemma list_index_nonempty: "list_index xs x = Inr k \<Longrightarrow> xs \<noteq> []"
  by (cases xs) auto

lemma raise_outcome:
  assumes "ud_session ud1 = Some s" and "s_i s < int (length (s_questions s))"
  shows "next_outcome s (ud1, [], Some e)"
  using assms
  by (simp add: next_outcome_def state_of_def sent_def raised_def presented_qids_def
      map_filter_simps)

lemma send_question_outcome:
  assumes s: "ud_session ud = Some s"
  shows "next_outcome s (send_question perm ud)"
proof (cases "s_i s \<ge> int (length (s_questions s))")
  case True
  then show ?thesis using s
    by (simp add: send_question_def finish_session_eq next_outcome_def state_of_def sent_def
        raised_def presented_qids_def map_filter_simps)
next
  case False
  then have lt: "s_i s < int (length (s_questions s))" by simp
  let ?ud1 = "session_cancel_timer ud"
  have s1: "ud_session ?ud1 = Some s" using s by (simp add: session_cancel_timer_def)
  note r = raise_outcome [OF s1 lt]
  show ?thesis
  proof (cases "py_index (s_questions s) (s_i s)")
    case (Inl e)
    then show ?thesis using s False r by (simp add: send_question_def or_raise_def Let_def)
  next
    case qu: (Inr qu)
    show ?thesis
    proof (cases "py_index (options qu) (correct_index qu)")
      case (Inl e)
      then show ?thesis using s False r qu by (simp add: send_question_def or_raise_def Let_def)
    next
      case ct: (Inr ct)
      show ?thesis
      proof (cases "list_index (random_shuffle perm (options qu)) ct")
        case (Inl e)
        then show ?thesis using s False r qu ct
          by (simp add: send_question_def or_raise_def Let_def)
      next
        case k: (Inr k)
        from list_index_nonempty [OF k] have ne: "random_shuffle perm (options qu) \<noteq> []" .
        show ?thesis using s False qu ct k store_and_send_outcome [OF lt ne]
          by (simp add: send_question_def or_raise_def Let_def)
      qed
    qed
  qed
qed

lemma send_question_direct_outcome:
  assumes s: "ud_session ud = Some s"
  shows "next_outcome s (send_question_direct perm ud)"
proof (cases "s_i s \<ge> int (length (s_questions s))")
  case True
  then show ?thesis using s
    by (simp add: send_question_direct_def summary_pct_Inr or_raise_def next_outcome_def
        state_of_def sent_def raised_def presented_qids_def map_filter_simps Let_def)
next
  case False
  then have lt: "s_i s < int (length (s_questions s))" by simp
  let ?ud1 = "ud\<lparr>ud_timer_job := None\<rparr>"
  have s1: "ud_session ?ud1 = Some s" using s by simp
  note r = raise_outcome [OF s1 lt]
  show ?thesis
  proof (cases "py_index (s_questions s) (s_i s)")
    case (Inl e)
    then show ?thesis using s False r
      by (simp add: send_question_direct_def or_raise_def Let_def)
  next
    case qu: (Inr qu)
    let ?order = "random_shuffle perm [0..<length (options qu)]"
    show ?thesis
    proof (cases "gather (options qu) ?order")
      case (Inl e)
      then show ?thesis using s False r qu
        by (simp add: send_question_direct_def or_raise_def Let_def)
    next
      case sh: (Inr sh)
      show ?thesis
      proof (cases "list_index (map int ?order) (correct_index qu)")
        case (Inl e)
        then show ?thesis using s False r qu sh
          by (simp add: send_question_direct_def or_raise_def Let_def)
      next
        case k: (Inr k)
        from list_index_nonempty [OF k] have "?order \<noteq> []" by simp
        with gather_length [OF sh] have ne: "sh \<noteq> []" by auto
        show ?thesis using s False qu sh k store_and_send_outcome [OF lt ne]
          by (simp add: send_question_direct_def or_raise_def Let_def)
      qed
    qed
  qed
qed

subsection \<open>Resolving a question\<close>

lemma after_sending_parts:
  "state_of (after_sending ms r) = state_of r"
  "sent (after_sending ms r) = ms @ sent r"
  "raised (after_sending ms r) = raised r"
  by (simp_all add: after_sending_def state_of_def sent_def raised_def split: prod.splits)

lemma presented_qids_append:
  "presented_qids (ms @ ms') = presented_qids ms @ presented_qids ms'"
  by (induction ms) (simp_all add: presented_qids_def map_filter_simps split: option.splits)

lemma after_sending_outcome:
  assumes "next_outcome s r" and "presented_qids ms = []"
    and "summary_count (ms @ sent r) = summary_count (sent r)"
  shows "next_outcome s (after_sending ms r)"
  using assms
  by (simp add: next_outcome_def after_sending_parts presented_qids_append split: option.splits)

lemma on_answer_correct:
  assumes s: "ud_session ud = Some s" and idx: "idx = cur_ci s"
  shows "(\<exists>e. on_answer perm ud (s_qid s) idx =
               ((session_cancel_timer ud)\<lparr>ud_session := Some (s\<lparr>s_correct := s_correct s + 1\<rparr>)\<rparr>,
                [], Some e))
       \<or> next_outcome (s\<lparr>s_correct := s_correct s + 1, s_i := s_i s + 1\<rparr>)
            (on_answer perm ud (s_qid s) idx)"
proof (cases "py_index letters (cur_ci s)")
  case (Inl e)
  then show ?thesis using s idx by (simp add: on_answer_def or_raise_def Let_def)
next
  case (Inr l)
  let ?s2 = "s\<lparr>s_correct := s_correct s + 1, s_i := s_i s + 1\<rparr>"
  let ?ud2 = "(session_cancel_timer ud)\<lparr>ud_session := Some ?s2\<rparr>"
  have "next_outcome ?s2 (send_question perm ?ud2)"
    by (rule send_question_outcome) simp
  then have "next_outcome ?s2
      (after_sending [Answer_correct l (text_or_empty (cur_opts s) (cur_ci s))]
         (send_question perm ?ud2))"
    by (rule after_sending_outcome) (simp_all add: presented_qids_def map_filter_simps)
  then show ?thesis using s idx Inr by (simp add: on_answer_def or_raise_def Let_def)
qed

lemma on_answer_wrong:
  assumes s: "ud_session ud = Some s" and idx: "idx \<noteq> cur_ci s"
  shows "(\<exists>e. on_answer perm ud (s_qid s) idx = (session_cancel_timer ud, [], Some e))
       \<or> next_outcome (s\<lparr>s_i := s_i s + 1\<rparr>) (on_answer perm ud (s_qid s) idx)"
proof (cases "py_index letters idx")
  case (Inl e)
  then show ?thesis using s idx by (simp add: on_answer_def or_raise_def Let_def)
next
  case li: (Inr li)
  show ?thesis
  proof (cases "py_index letters (cur_ci s)")
    case (Inl e)
    then show ?thesis using s idx li by (simp add: on_answer_def or_raise_def Let_def)
  next
    case (Inr l)
    let ?s2 = "s\<lparr>s_i := s_i s + 1\<rparr>"
    let ?ud2 = "(session_cancel_timer ud)\<lparr>ud_session := Some ?s2\<rparr>"
    have "next_outcome ?s2 (send_question perm ?ud2)"
      by (rule send_question_outcome) simp
    then have "next_outcome ?s2
        (after_sending [Answer_incorrect li (text_or_empty (cur_opts s) idx) l
                          (text_or_empty (cur_opts s) (cur_ci s))]
           (send_question perm ?ud2))"
      by (rule after_sending_outcome) (simp_all add: presented_qids_def map_filter_simps)
    then show ?thesis using s idx li Inr by (simp add: on_answer_def or_raise_def Let_def)
  qed
qed

lemma timeout_question_live:
  assumes s: "ud_session ud = Some s"
  shows "(\<exists>e. timeout_question perm ud (s_qid s) = (ud, [], Some e))
       \<or> next_outcome (s\<lparr>s_i := s_i s + 1\<rparr>) (timeout_question perm ud (s_qid s))"
proof (cases "py_index letters (cur_ci s)")
  case (Inl e)
  then show ?thesis using s by (simp add: timeout_question_def or_raise_def Let_def)
next
  case (Inr l)
  let ?s2 = "s\<lparr>s_i := s_i s + 1\<rparr>"
  let ?ud2 = "ud\<lparr>ud_session := Some ?s2\<rparr>"
  have "next_outcome ?s2 (send_question_direct perm ?ud2)"
    by (rule send_question_direct_outcome) simp
  then have "next_outcome ?s2
      (after_sending [Time_is_up l (text_or_empty (cur_opts s) (cur_ci s)), Next_question]
         (send_question_direct perm ?ud2))"
    by (rule after_sending_outcome) (simp_all add: presented_qids_def map_filter_simps)
  then show ?thesis using s Inr by (simp add: timeout_question_def or_raise_def Let_def)
qed

subsection \<open>One event\<close>

lemma next_outcome_inv:
  assumes "next_outcome s r" and "0 \<le> s_correct s" and "s_correct s \<le> s_i s"
  shows "session_inv (state_of r)"
  using assms by (simp add: next_outcome_def session_inv_def split: option.splits)

lemma next_outcome_qid_step:
  assumes "next_outcome s2 r" and "s_qid s2 = s_qid s" and "s_correct s \<le> s_correct s2"
  shows "qid_step s r"
  using assms by (auto simp: next_outcome_def qid_step_def split: option.splits if_splits)

lemma next_outcome_count:
  assumes "next_outcome s r"
  shows "score_after r = Some (s_correct s)"
  using assms by (simp add: next_outcome_def score_after_def split: option.splits)

lemma plain_qid_step:
  assumes "sent r = ms" and "presented_qids ms = []"
    and "ud_session (state_of r) = None \<or> ud_session (state_of r) = Some s
         \<or> ud_session (state_of r) = Some (s\<lparr>s_correct := s_correct s + 1\<rparr>)"
  shows "qid_step s r"
  using assms by (auto simp: qid_step_def)

lemma on_answer_qid_step:
  assumes s: "ud_session ud = Some s"
  shows "qid_step s (on_answer perm ud qid idx)"
proof (cases "s_qid s = qid")
  case False
  then show ?thesis using s
    by (intro plain_qid_step [where ms = "[Question_not_active]"])
       (simp_all add: on_answer_def sent_def state_of_def presented_qids_def map_filter_simps)
next
  case True
  show ?thesis
  proof (cases "idx = cur_ci s")
    case c: True
    from on_answer_correct [OF s c, of perm] show ?thesis
    proof
      assume "\<exists>e. on_answer perm ud (s_qid s) idx =
               ((session_cancel_timer ud)\<lparr>ud_session := Some (s\<lparr>s_correct := s_correct s + 1\<rparr>)\<rparr>,
                [], Some e)"
      then show ?thesis unfolding True
        by (intro plain_qid_step [where ms = "[]"])
           (auto simp: sent_def state_of_def presented_qids_def map_filter_simps)
    next
      assume "next_outcome (s\<lparr>s_correct := s_correct s + 1, s_i := s_i s + 1\<rparr>)
            (on_answer perm ud (s_qid s) idx)"
      then show ?thesis unfolding True by (rule next_outcome_qid_step) simp_all
    qed
  next
    case w: False
    from on_answer_wrong [OF s w, of perm] show ?thesis
    proof
      assume "\<exists>e. on_answer perm ud (s_qid s) idx = (session_cancel_timer ud, [], Some e)"
      then show ?thesis unfolding True using s
        by (intro plain_qid_step [where ms = "[]"])
           (auto simp: sent_def state_of_def presented_qids_def map_filter_simps
              session_cancel_timer_def)
    next
      assume "next_outcome (s\<lparr>s_i := s_i s + 1\<rparr>) (on_answer perm ud (s_qid s) idx)"
      then show ?thesis unfolding True by (rule next_outcome_qid_step) simp_all
    qed
  qed
qed

lemma timeout_question_qid_step:
  assumes s: "ud_session ud = Some s"
  shows "qid_step s (timeout_question perm ud qid)"
proof (cases "s_qid s = qid")
  case False
  then show ?thesis using s
    by (intro plain_qid_step [where ms = "[]"])
       (simp_all add: timeout_question_def sent_def state_of_def presented_qids_def
          map_filter_simps)
next
  case True
  from timeout_question_live [OF s, of perm] show ?thesis
  proof
    assume "\<exists>e. timeout_question perm ud (s_qid s) = (ud, [], Some e)"
    then show ?thesis unfolding True using s
      by (intro plain_qid_step [where ms = "[]"])
         (auto simp: sent_def state_of_def presented_qids_def map_filter_simps)
  next
    assume "next_outcome (s\<lparr>s_i := s_i s + 1\<rparr>) (timeout_question perm ud (s_qid s))"
    then show ?thesis unfolding True by (rule next_outcome_qid_step) simp_all
  qed
qed

lemma menu_results:
  "ud_session (state_of (show_main_menu ud)) = None"
  "presented_qids (sent (show_main_menu ud)) = []"
  "raised (show_main_menu ud) = None"
  "ud_session (state_of (show_block_menu blocks ud k)) = None"
  "presented_qids (sent (show_block_menu blocks ud k)) = []"
  "ud_session (state_of (show_subblock_menu blocks ud f)) = None"
  "presented_qids (sent (show_subblock_menu blocks ud f)) = []"
  by (simp_all add: show_main_menu_def show_block_menu_def show_subblock_menu_def
      state_of_def sent_def raised_def presented_qids_def map_filter_simps Let_def
      split: option.splits)

lemma presented_qids_stopped: "presented_qids (Test_stopped # ms) = presented_qids ms"
  by (simp add: presented_qids_def map_filter_simps)

lemma on_event_qid_step:
  assumes s: "ud_session ud = Some s" and ev: "\<not> starts_session ev"
  shows "qid_step s (on_event blocks tape ud ev)"
proof (cases ev)
  case Command_start
  then show ?thesis
    by (simp add: on_event_def cmd_start_def qid_step_def menu_results)
next
  case (Timer_fired qid)
  then show ?thesis using timeout_question_qid_step [OF s] by (simp add: on_event_def)
next
  case (Callback cb)
  show ?thesis
  proof (cases cb)
    case Cb_noop
    then show ?thesis using Callback s
      by (simp add: on_event_def on_callback_def qid_step_def state_of_def sent_def
          presented_qids_def map_filter_simps)
  next
    case Cb_back
    then show ?thesis using Callback
      by (simp add: on_event_def on_callback_def qid_step_def menu_results)
  next
    case (Cb_menu k)
    then show ?thesis using Callback
      by (simp add: on_event_def on_callback_def qid_step_def menu_results)
  next
    case (Cb_submenu f)
    then show ?thesis using Callback
      by (simp add: on_event_def on_callback_def qid_step_def menu_results)
  next
    case Cb_quit
    then show ?thesis using Callback
      by (simp add: on_event_def on_callback_def qid_step_def menu_results
          after_sending_parts presented_qids_append presented_qids_stopped)
  next
    case Cb_global_final
    then show ?thesis using Callback ev by simp
  next
    case (Cb_start k m)
    then show ?thesis using Callback ev by simp
  next
    case (Cb_startfile f m)
    then show ?thesis using Callback ev by simp
  next
    case (Cb_ans qid idx)
    then show ?thesis using Callback on_answer_qid_step [OF s]
      by (simp add: on_event_def on_callback_def)
  next
    case Cb_other
    then show ?thesis using Callback s
      by (simp add: on_event_def on_callback_def qid_step_def state_of_def sent_def
          presented_qids_def map_filter_simps)
  qed
qed

lemma on_event_no_session:
  assumes s: "ud_session ud = None" and ev: "\<not> starts_session ev"
  shows "ud_session (state_of (on_event blocks tape ud ev)) = None
       \<and> presented_qids (sent (on_event blocks tape ud ev)) = []"
proof (cases ev)
  case Command_start
  then show ?thesis by (simp add: on_event_def cmd_start_def menu_results)
next
  case (Timer_fired qid)
  then show ?thesis using s
    by (simp add: on_event_def timeout_question_def state_of_def sent_def presented_qids_def
        map_filter_simps)
next
  case (Callback cb)
  show ?thesis
  proof (cases cb)
    case Cb_quit
    then show ?thesis using Callback
      by (simp add: on_event_def on_callback_def menu_results after_sending_parts
          presented_qids_append presented_qids_stopped)
  next
    case Cb_global_final
    then show ?thesis using Callback ev by simp
  next
    case (Cb_start k m)
    then show ?thesis using Callback ev by simp
  next
    case (Cb_startfile f m)
    then show ?thesis using Callback ev by simp
  next
    case Cb_back
    then show ?thesis using Callback by (simp add: on_event_def on_callback_def menu_results)
  next
    case (Cb_menu k)
    then show ?thesis using Callback by (simp add: on_event_def on_callback_def menu_results)
  next
    case (Cb_submenu f)
    then show ?thesis using Callback by (simp add: on_event_def on_callback_def menu_results)
  qed (use Callback s in \<open>simp_all add: on_event_def on_callback_def on_answer_def
        state_of_def sent_def presented_qids_def map_filter_simps\<close>)
qed

subsection \<open>Runs\<close>

lemma run_Cons_parts:
  "state_of (run blocks ud ((tape, ev) # evs))
     = state_of (run blocks (state_of (on_event blocks tape ud ev)) evs)"
  "sent (run blocks ud ((tape, ev) # evs))
     = sent (on_event blocks tape ud ev)
       @ sent (run blocks (state_of (on_event blocks tape ud ev)) evs)"
  "raised (run blocks ud ((tape, ev) # evs))
     = (case raised (on_event blocks tape ud ev) of None \<Rightarrow> [] | Some e \<Rightarrow> [e])
       @ raised (run blocks (state_of (on_event blocks tape ud ev)) evs)"
  by (simp_all add: state_of_def sent_def raised_def split: prod.splits)

lemma run_Nil_parts:
  "state_of (run blocks ud []) = ud"
  "sent (run blocks ud []) = []"
  "raised (run blocks ud []) = []"
  by (simp_all add: state_of_def sent_def raised_def)

lemma run_no_session:
  assumes "ud_session ud = None" and "list_all (\<lambda>p. \<not> starts_session (snd p)) evs"
  shows "ud_session (state_of (run blocks ud evs)) = None
       \<and> presented_qids (sent (run blocks ud evs)) = []"
  using assms
proof (induction evs arbitrary: ud)
  case Nil
  then show ?case
    by (simp add: run_Nil_parts presented_qids_def map_filter_simps del: run.simps)
next
  case (Cons p evs)
  obtain tape ev where p: "p = (tape, ev)" by (cases p)
  from Cons.prems p have ev: "\<not> starts_session ev"
    and rest: "list_all (\<lambda>p. \<not> starts_session (snd p)) evs" by simp_all
  from on_event_no_session [OF Cons.prems(1) ev, of blocks tape]
  have n: "ud_session (state_of (on_event blocks tape ud ev)) = None"
    and q: "presented_qids (sent (on_event blocks tape ud ev)) = []" by simp_all
  from Cons.IH [OF n rest] show ?case
    by (simp add: p run_Cons_parts presented_qids_append q del: run.simps)
qed

lemma run_qids:
  assumes "ud_session ud = Some s" and "list_all (\<lambda>p. \<not> starts_session (snd p)) evs"
  shows "sorted_wrt (<) (presented_qids (sent (run blocks ud evs)))
       \<and> (\<forall>k \<in> set (presented_qids (sent (run blocks ud evs))). s_qid s < k)
       \<and> (\<forall>s'. ud_session (state_of (run blocks ud evs)) = Some s' \<longrightarrow> s_qid s \<le> s_qid s')"
  using assms
proof (induction evs arbitrary: ud s)
  case Nil
  then show ?case
    by (simp add: run_Nil_parts presented_qids_def map_filter_simps del: run.simps)
next
  case (Cons p evs)
  obtain tape ev where p: "p = (tape, ev)" by (cases p)
  from Cons.prems p have ev: "\<not> starts_session ev"
    and rest: "list_all (\<lambda>p. \<not> starts_session (snd p)) evs" by simp_all
  let ?r = "on_event blocks tape ud ev"
  let ?P1 = "presented_qids (sent ?r)"
  let ?P2 = "presented_qids (sent (run blocks (state_of ?r) evs))"
  have P: "presented_qids (sent (run blocks ud (p # evs))) = ?P1 @ ?P2"
    by (simp add: p run_Cons_parts presented_qids_append del: run.simps)
  have S: "state_of (run blocks ud (p # evs)) = state_of (run blocks (state_of ?r) evs)"
    by (simp add: p run_Cons_parts del: run.simps)
  from on_event_qid_step [OF Cons.prems(1) ev, of blocks tape] have step: "qid_step s ?r" .
  show ?case
  proof (cases "ud_session (state_of ?r)")
    case None
    from run_no_session [OF None rest, of blocks]
    have "ud_session (state_of (run blocks (state_of ?r) evs)) = None" and "?P2 = []"
      by simp_all
    moreover from step None have "?P1 = []" by (simp add: qid_step_def)
    ultimately show ?thesis by (simp add: P S)
  next
    case (Some s1)
    from Cons.IH [OF Some rest]
    have ih1: "sorted_wrt (<) ?P2" and ih2: "\<forall>k \<in> set ?P2. s_qid s1 < k"
      and ih3: "\<forall>s'. ud_session (state_of (run blocks (state_of ?r) evs)) = Some s'
                  \<longrightarrow> s_qid s1 \<le> s_qid s'"
      by simp_all
    from step Some have le: "s_qid s \<le> s_qid s1"
      and one: "?P1 = [] \<or> ?P1 = [s_qid s + 1]"
      and eq: "?P1 = [s_qid s + 1] \<longrightarrow> s_qid s1 = s_qid s + 1"
      by (simp_all add: qid_step_def)
    from one show ?thesis
    proof
      assume e: "?P1 = []"
      show ?thesis using ih1 ih2 ih3 le by (simp add: P S e) force
    next
      assume e: "?P1 = [s_qid s + 1]"
      with eq have "s_qid s1 = s_qid s + 1" by simp
      then show ?thesis using ih1 ih2 ih3 by (simp add: P S e) force
    qed
  qed
qed

lemma on_answer_inv:
  assumes inv: "session_inv ud" and ok: "raised (on_answer perm ud qid idx) = None"
  shows "session_inv (state_of (on_answer perm ud qid idx))"
proof (cases "ud_session ud")
  case None
  then show ?thesis using inv by (simp add: on_answer_def state_of_def)
next
  case (Some s)
  from inv Some have c: "0 \<le> s_correct s" "s_correct s \<le> s_i s"
    by (simp_all add: session_inv_def)
  show ?thesis
  proof (cases "s_qid s = qid")
    case False
    then show ?thesis using inv Some by (simp add: on_answer_def state_of_def)
  next
    case True
    show ?thesis
    proof (cases "idx = cur_ci s")
      case i: True
      from on_answer_correct [OF Some i, of perm] ok
      have "next_outcome (s\<lparr>s_correct := s_correct s + 1, s_i := s_i s + 1\<rparr>)
              (on_answer perm ud qid idx)"
        unfolding True by (auto simp: raised_def)
      then show ?thesis by (rule next_outcome_inv) (use c in simp_all)
    next
      case i: False
      from on_answer_wrong [OF Some i, of perm] ok
      have "next_outcome (s\<lparr>s_i := s_i s + 1\<rparr>) (on_answer perm ud qid idx)"
        unfolding True by (auto simp: raised_def)
      then show ?thesis by (rule next_outcome_inv) (use c in simp_all)
    qed
  qed
qed

lemma timeout_question_inv:
  assumes inv: "session_inv ud" and ok: "raised (timeout_question perm ud qid) = None"
  shows "session_inv (state_of (timeout_question perm ud qid))"
proof (cases "ud_session ud")
  case None
  then show ?thesis using inv by (simp add: timeout_question_def state_of_def)
next
  case (Some s)
  from inv Some have c: "0 \<le> s_correct s" "s_correct s \<le> s_i s"
    by (simp_all add: session_inv_def)
  show ?thesis
  proof (cases "s_qid s = qid")
    case False
    then show ?thesis using inv Some by (simp add: timeout_question_def state_of_def)
  next
    case True
    from timeout_question_live [OF Some, of perm] ok
    have "next_outcome (s\<lparr>s_i := s_i s + 1\<rparr>) (timeout_question perm ud qid)"
      unfolding True by (auto simp: raised_def)
    then show ?thesis by (rule next_outcome_inv) (use c in simp_all)
  qed
qed

lemma started_inv:
  "session_inv (state_of (after_sending ms (send_question perm (start_session ud title qs))))"
proof -
  let ?s0 = "\<lparr>s_title = title, s_questions = qs, s_i = 0, s_correct = 0, s_qid = 0,
              s_current = None\<rparr>"
  have "next_outcome ?s0 (send_question perm (start_session ud title qs))"
    by (rule send_question_outcome) (simp add: start_session_def)
  then have "session_inv (state_of (send_question perm (start_session ud title qs)))"
    by (rule next_outcome_inv) simp_all
  then show ?thesis by (simp add: after_sending_parts)
qed

lemma or_raise_inv:
  assumes "session_inv ud" and "\<And>v. session_inv (state_of (k v))"
  shows "session_inv (state_of (or_raise ud x k))"
  using assms by (cases x) (simp_all add: or_raise_def state_of_def)

lemma on_callback_inv:
  assumes inv: "session_inv ud" and ok: "raised (on_callback blocks tape ud cb) = None"
  shows "session_inv (state_of (on_callback blocks tape ud cb))"
proof (cases cb)
  case Cb_noop
  then show ?thesis using inv by (simp add: on_callback_def state_of_def)
next
  case Cb_back
  then show ?thesis by (simp add: on_callback_def session_inv_def menu_results)
next
  case (Cb_menu k)
  then show ?thesis by (simp add: on_callback_def session_inv_def menu_results)
next
  case (Cb_submenu f)
  then show ?thesis by (simp add: on_callback_def session_inv_def menu_results)
next
  case Cb_quit
  then show ?thesis
    by (simp add: on_callback_def session_inv_def menu_results after_sending_parts)
next
  case Cb_global_final
  then show ?thesis using inv
    by (simp add: on_callback_def Let_def) (rule or_raise_inv, simp, rule started_inv)
next
  case (Cb_start k m)
  have "session_inv (state_of (or_raise ud
          (build_test_questions blocks (draw tape 0) m (Some k) None)
          (\<lambda>(title, questions).
             if questions = [] then (ud, [No_questions_in_block], None)
             else after_sending [Starting_test]
                    (send_question (draw tape 1) (start_session ud title questions)))))"
  proof (rule or_raise_inv [OF inv])
    fix v :: "string \<times> question list"
    obtain title qs where v: "v = (title, qs)" by (cases v)
    show "session_inv (state_of (case v of (title, questions) \<Rightarrow>
             if questions = [] then (ud, [No_questions_in_block], None)
             else after_sending [Starting_test]
                    (send_question (draw tape 1) (start_session ud title questions))))"
      using inv started_inv by (simp add: v state_of_def)
  qed
  then show ?thesis using Cb_start by (simp add: on_callback_def)
next
  case (Cb_startfile f m)
  have "session_inv (state_of (or_raise ud
          (build_test_questions blocks (draw tape 0) m None (Some f))
          (\<lambda>(title, questions).
             after_sending [Starting_test]
               (send_question (draw tape 1) (start_session ud title questions)))))"
  proof (rule or_raise_inv [OF inv])
    fix v :: "string \<times> question list"
    obtain title qs where v: "v = (title, qs)" by (cases v)
    show "session_inv (state_of (case v of (title, questions) \<Rightarrow>
             after_sending [Starting_test]
               (send_question (draw tape 1) (start_session ud title questions))))"
      using started_inv by (simp add: v)
  qed
  then show ?thesis using Cb_startfile inv by (simp add: on_callback_def state_of_def)
next
  case (Cb_ans qid idx)
  then show ?thesis using on_answer_inv [OF inv] ok by (simp add: on_callback_def)
next
  case Cb_other
  then show ?thesis using inv by (simp add: on_callback_def state_of_def)
qed

lemma on_event_inv:
  assumes inv: "session_inv ud" and ok: "raised (on_event blocks tape ud ev) = None"
  shows "session_inv (state_of (on_event blocks tape ud ev))"
proof (cases ev)
  case Command_start
  then show ?thesis by (simp add: on_event_def cmd_start_def session_inv_def menu_results)
next
  case (Callback cb)
  then show ?thesis using on_callback_inv [OF inv] ok by (simp add: on_event_def)
next
  case (Timer_fired qid)
  then show ?thesis using timeout_question_inv [OF inv] ok by (simp add: on_event_def)
qed

lemma run_inv:
  assumes "session_inv ud" and "raised (run blocks ud evs) = []"
  shows "session_inv (state_of (run blocks ud evs))"
  using assms
proof (induction evs arbitrary: ud)
  case Nil
  then show ?case by (simp add: run_Nil_parts del: run.simps)
next
  case (Cons p evs)
  obtain tape ev where p: "p = (tape, ev)" by (cases p)
  from Cons.prems(2) have ok1: "raised (on_event blocks tape ud ev) = None"
    and ok2: "raised (run blocks (state_of (on_event blocks tape ud ev)) evs) = []"
    by (simp_all add: p run_Cons_parts del: run.simps split: option.splits)
  from Cons.IH [OF on_event_inv [OF Cons.prems(1) ok1] ok2] show ?case
    by (simp add: p run_Cons_parts del: run.simps)
qed

lemma on_answer_replay:
  assumes "ud_session ud' = None \<or> (\<exists>s'. ud_session ud' = Some s' \<and> s_qid s' \<noteq> qid)"
  shows "state_of (on_answer perm ud' qid idx) = ud'"
  using assms by (auto simp: on_answer_def state_of_def)

lemma next_outcome_replay:
  assumes "next_outcome s2 r" and "raised r = None"
  shows "state_of (on_answer perm (state_of r) (s_qid s2) idx) = state_of r"
proof (rule on_answer_replay)
  show "ud_session (state_of r) = None
        \<or> (\<exists>s'. ud_session (state_of r) = Some s' \<and> s_qid s' \<noteq> s_qid s2)"
    using assms by (cases "ud_session (state_of r)") (simp_all add: next_outcome_def)
qed

lemma run_correct_mono:
  assumes "ud_session ud = Some s" and "list_all (\<lambda>p. \<not> starts_session (snd p)) evs"
    and "ud_session (state_of (run blocks ud evs)) = Some s'"
  shows "s_correct s \<le> s_correct s'"
  using assms
proof (induction evs arbitrary: ud s)
  case Nil
  then show ?case by (simp add: run_Nil_parts del: run.simps)
next
  case (Cons p evs)
  obtain tape ev where p: "p = (tape, ev)" by (cases p)
  from Cons.prems p have ev: "\<not> starts_session ev"
    and rest: "list_all (\<lambda>p. \<not> starts_session (snd p)) evs" by simp_all
  let ?r = "on_event blocks tape ud ev"
  from Cons.prems(3) have fin: "ud_session (state_of (run blocks (state_of ?r) evs)) = Some s'"
    by (simp add: p run_Cons_parts del: run.simps)
  from on_event_qid_step [OF Cons.prems(1) ev, of blocks tape] have step: "qid_step s ?r" .
  show ?case
  proof (cases "ud_session (state_of ?r)")
    case None
    from run_no_session [OF None rest, of blocks] fin show ?thesis by simp
  next
    case (Some s1)
    from step Some have "s_correct s \<le> s_correct s1" by (simp add: qid_step_def)
    moreover from Cons.IH [OF Some rest fin] have "s_correct s1 \<le> s_correct s'" .
    ultimately show ?thesis by simp
  qed
qed

lemma send_question_inv:
  assumes "session_inv ud"
  shows "session_inv (state_of (send_question perm ud))"
proof (cases "ud_session ud")
  case None
  then show ?thesis using assms by (simp add: send_question_def state_of_def)
next
  case (Some s)
  from send_question_outcome [OF Some, of perm] show ?thesis
    by (rule next_outcome_inv) (use assms Some in \<open>simp_all add: session_inv_def\<close>)
qed

lemma send_question_direct_inv:
  assumes "session_inv ud"
  shows "session_inv (state_of (send_question_direct perm ud))"
proof (cases "ud_session ud")
  case None
  then show ?thesis using assms by (simp add: send_question_direct_def state_of_def)
next
  case (Some s)
  from send_question_direct_outcome [OF Some, of perm] show ?thesis
    by (rule next_outcome_inv) (use assms Some in \<open>simp_all add: session_inv_def\<close>)
qed

lemma finish_session_inv: "session_inv (state_of (finish_session ud))"
proof (cases "ud_session ud")
  case None
  then show ?thesis
    by (simp add: finish_session_def session_cancel_timer_def session_inv_def state_of_def)
next
  case (Some s)
  then show ?thesis by (simp add: finish_session_eq session_inv_def state_of_def)
qed

subsection \<open>What does hold of the count and of the bounds\<close>

text \<open>
  Whether or not the handler raises: an answer to the current \<open>qid\<close> leaves the count one
  higher exactly when the chosen index equals the stored correct index, a timeout leaves
  it as it was, and over a run without a new start the count of the session never
  drops. When the answer is handled without an exception, a second answer to the same
  \<open>qid\<close> changes nothing.
\<close>

lemma count_per_handler:
  assumes s: "ud_session ud = Some s"
  shows "score_after (on_answer perm ud (s_qid s) idx)
           = Some (s_correct s + (if idx = cur_ci s then 1 else 0))
       \<and> score_after (timeout_question perm ud (s_qid s)) = Some (s_correct s)
       \<and> (raised (on_answer perm ud (s_qid s) idx) = None \<longrightarrow>
            state_of (on_answer perm' (state_of (on_answer perm ud (s_qid s) idx)) (s_qid s) idx')
              = state_of (on_answer perm ud (s_qid s) idx))
       \<and> (list_all (\<lambda>p. \<not> starts_session (snd p)) evs \<longrightarrow>
            (\<forall>s'. ud_session (state_of (run blocks ud evs)) = Some s'
                  \<longrightarrow> s_correct s \<le> s_correct s'))"
proof (intro conjI impI allI)
  show "score_after (on_answer perm ud (s_qid s) idx)
           = Some (s_correct s + (if idx = cur_ci s then 1 else 0))"
  proof (cases "idx = cur_ci s")
    case True
    from on_answer_correct [OF s True, of perm] show ?thesis
    proof
      assume "\<exists>e. on_answer perm ud (s_qid s) idx =
               ((session_cancel_timer ud)\<lparr>ud_session := Some (s\<lparr>s_correct := s_correct s + 1\<rparr>)\<rparr>,
                [], Some e)"
      then show ?thesis using True by (auto simp: score_after_def state_of_def)
    next
      assume "next_outcome (s\<lparr>s_correct := s_correct s + 1, s_i := s_i s + 1\<rparr>)
                (on_answer perm ud (s_qid s) idx)"
      from next_outcome_count [OF this] show ?thesis using True by simp
    qed
  next
    case False
    from on_answer_wrong [OF s False, of perm] show ?thesis
    proof
      assume "\<exists>e. on_answer perm ud (s_qid s) idx = (session_cancel_timer ud, [], Some e)"
      then show ?thesis using False s
        by (auto simp: score_after_def state_of_def session_cancel_timer_def)
    next
      assume "next_outcome (s\<lparr>s_i := s_i s + 1\<rparr>) (on_answer perm ud (s_qid s) idx)"
      from next_outcome_count [OF this] show ?thesis using False by simp
    qed
  qed
next
  from timeout_question_live [OF s, of perm]
  show "score_after (timeout_question perm ud (s_qid s)) = Some (s_correct s)"
  proof
    assume "\<exists>e. timeout_question perm ud (s_qid s) = (ud, [], Some e)"
    then show ?thesis using s by (auto simp: score_after_def state_of_def)
  next
    assume "next_outcome (s\<lparr>s_i := s_i s + 1\<rparr>) (timeout_question perm ud (s_qid s))"
    from next_outcome_count [OF this] show ?thesis by simp
  qed
next
  assume ok: "raised (on_answer perm ud (s_qid s) idx) = None"
  let ?r = "on_answer perm ud (s_qid s) idx"
  let ?s2 = "s\<lparr>s_correct := s_correct s + (if idx = cur_ci s then 1 else 0), s_i := s_i s + 1\<rparr>"
  have n: "next_outcome ?s2 ?r"
  proof (cases "idx = cur_ci s")
    case True
    from on_answer_correct [OF s True, of perm] ok show ?thesis
      by (auto simp: raised_def True)
  next
    case False
    from on_answer_wrong [OF s False, of perm] ok show ?thesis
      by (auto simp: raised_def False)
  qed
  from next_outcome_replay [OF n ok, of perm' idx']
  show "state_of (on_answer perm' (state_of ?r) (s_qid s) idx') = state_of ?r" by simp
next
  fix s'
  assume "list_all (\<lambda>p. \<not> starts_session (snd p)) evs"
    and "ud_session (state_of (run blocks ud evs)) = Some s'"
  with s show "s_correct s \<le> s_correct s'" by (rule run_correct_mono)
qed

lemma count_per_handler_example:
  "ud_session example_data = Some example_session
   \<and> cur_ci example_session = 1
   \<and> score_after (on_answer [0, 1, 2] example_data (s_qid example_session) 1) = Some 1
   \<and> score_after (on_answer [0, 1, 2] example_data (s_qid example_session) 0) = Some 0
   \<and> score_after (on_answer [0, 1, 2] example_data (s_qid example_session) 26) = Some 0
   \<and> raised (on_answer [0, 1, 2] example_data (s_qid example_session) 26) = Some IndexError
   \<and> score_after (timeout_question [0, 1, 2] example_data (s_qid example_session)) = Some 0
   \<and> list_all (\<lambda>p. \<not> starts_session (snd p)) example_resolves
   \<and> map_option s_correct
        (ud_session (state_of (run example_blocks example_data example_resolves))) = Some 1"
  using
    count_per_handler [of example_data example_session "[0, 1, 2]" 1 "[]" 0
      example_resolves example_blocks]
    count_per_handler [of example_data example_session "[0, 1, 2]" 26 "[]" 0
      example_resolves example_blocks]
  by (simp add: example_defs engine_defs score_after_def on_event_def on_callback_def
      on_answer_def timeout_question_def draw_def)

text \<open>
  \<open>0 \<le> correct \<le> i \<le> len(questions)\<close> holds for the session that \<open>start_session\<close>
  creates and is kept by presenting the next question on either path and by finishing.
  It is kept by an answer, a timeout and a run of events when no handler raises.
\<close>

lemma bounds_kept_without_exception:
  "session_inv (start_session ud0 title questions)
   \<and> (session_inv ud \<longrightarrow>
        session_inv (state_of (send_question perm ud))
        \<and> session_inv (state_of (send_question_direct perm ud))
        \<and> session_inv (state_of (finish_session ud))
        \<and> (raised (on_answer perm ud qid idx) = None \<longrightarrow>
             session_inv (state_of (on_answer perm ud qid idx)))
        \<and> (raised (timeout_question perm ud qid) = None \<longrightarrow>
             session_inv (state_of (timeout_question perm ud qid)))
        \<and> (raised (run blocks ud evs) = [] \<longrightarrow> session_inv (state_of (run blocks ud evs))))"
proof (intro conjI impI)
  show "session_inv (start_session ud0 title questions)"
    by (simp add: session_inv_def start_session_def)
next
  assume "session_inv ud"
  then show "session_inv (state_of (send_question perm ud))" by (rule send_question_inv)
next
  assume "session_inv ud"
  then show "session_inv (state_of (send_question_direct perm ud))"
    by (rule send_question_direct_inv)
next
  show "session_inv (state_of (finish_session ud))" by (rule finish_session_inv)
next
  assume "session_inv ud" and "raised (on_answer perm ud qid idx) = None"
  then show "session_inv (state_of (on_answer perm ud qid idx))" by (rule on_answer_inv)
next
  assume "session_inv ud" and "raised (timeout_question perm ud qid) = None"
  then show "session_inv (state_of (timeout_question perm ud qid))"
    by (rule timeout_question_inv)
next
  assume "session_inv ud" and "raised (run blocks ud evs) = []"
  then show "session_inv (state_of (run blocks ud evs))" by (rule run_inv)
qed

lemma bounds_kept_without_exception_example:
  "session_inv no_user_data
   \<and> raised (run example_blocks no_user_data example_run) = []
   \<and> session_inv (state_of (run example_blocks no_user_data example_run))
   \<and> map_option s_correct (ud_session (state_of (run example_blocks no_user_data example_run)))
       = Some 1
   \<and> map_option s_i (ud_session (state_of (run example_blocks no_user_data example_run)))
       = Some 1
   \<and> map_option (\<lambda>s. length (s_questions s))
        (ud_session (state_of (run example_blocks no_user_data example_run))) = Some 2
   \<and> session_inv example_data
   \<and> raised (on_answer [0, 1, 2] example_data 1 1) = None
   \<and> session_inv (state_of (on_answer [0, 1, 2] example_data 1 1))
   \<and> raised (timeout_question [0, 1, 2] example_data 1) = None
   \<and> session_inv (state_of (timeout_question [0, 1, 2] example_data 1))"
  using
    bounds_kept_without_exception [of no_user_data "[]" "[]" no_user_data "[]" 0 0
      example_blocks example_run]
    bounds_kept_without_exception [of no_user_data "[]" "[]" example_data "[0, 1, 2]" 1 1
      example_blocks "[]"]
  by (simp add: example_defs engine_defs session_inv_def on_event_def on_callback_def
      on_answer_def timeout_question_def build_test_questions_def find_block_def
      MAIN_BLOCKS_def random_sample_def draw_def start_session_def)

section \<open>The claims\<close>

subsection \<open>C1: stale answers and stale timeouts\<close>

text \<open>
  The claim C1 says that a resolve event whose \<open>qid\<close> differs from the session's is a
  no-op that changes nothing and sends nothing. A stale answer does send a message: the
  notice that the question is no longer active.
\<close>

theorem stale_answer_sends_notice:
  "ud_session example_data = Some example_session \<and> 7 \<noteq> s_qid example_session \<and>
   sent (on_event example_blocks [] example_data (Callback (Cb_ans 7 0))) \<noteq> []"
  by (simp add: example_data_def example_session_def on_event_def on_callback_def
      on_answer_def sent_def)

text \<open>
  C1, amended: a resolve event whose \<open>qid\<close> differs from the session's leaves the user's
  data as it was, session and timer included. A stale timeout sends nothing; a stale answer
  sends only the notice that the question is no longer active.
\<close>

theorem stale_resolve_changes_nothing:
  assumes "ud_session ud = Some s" and "qid \<noteq> s_qid s"
  shows "on_event blocks tape ud (Callback (Cb_ans qid idx)) = (ud, [Question_not_active], None)
       \<and> on_event blocks tape ud (Timer_fired qid) = (ud, [], None)"
  using assms by (simp add: on_event_def on_callback_def on_answer_def timeout_question_def)

theorem stale_resolve_changes_nothing_witness:
  "ud_session example_data = Some example_session \<and> 7 \<noteq> s_qid example_session
   \<and> on_event example_blocks [] example_data (Callback (Cb_ans 7 0))
       = (example_data, [Question_not_active], None)
   \<and> on_event example_blocks [] example_data (Timer_fired 7) = (example_data, [], None)"
  using stale_resolve_changes_nothing [of example_data example_session 7 example_blocks "[]" 0]
  by (simp add: example_data_def example_session_def)

subsection \<open>C2: the shuffle keeps the options and the correct text\<close>

text \<open>
  C2: when either \<open>send_question\<close> or \<open>send_question_direct\<close> presents a question that
  the loader accepted, with a permutation drawn by \<open>random.shuffle\<close>, the stored
  \<open>shuffled_opts\<close> is a rearrangement of the question's options, and reading it at the
  stored \<open>correct_index\<close> gives the text of the question's option at its \<open>correct_index\<close>.
\<close>

theorem shuffle_correctness:
  assumes s: "ud_session ud = Some s"
    and i: "0 \<le> s_i s" "s_i s < int (length (s_questions s))"
    and qu: "qu = s_questions s ! nat (s_i s)"
    and wf: "wf_question qu"
    and p: "is_perm perm (length (options qu))"
  shows "(\<exists>c. stored_current (send_question perm ud) = Some c
            \<and> mset (shuffled_opts c) = mset (options qu)
            \<and> py_index (shuffled_opts c) (cur_correct_index c)
                = Inr (options qu ! nat (correct_index qu)))
       \<and> (\<exists>c. stored_current (send_question_direct perm ud) = Some c
            \<and> mset (shuffled_opts c) = mset (options qu)
            \<and> py_index (shuffled_opts c) (cur_correct_index c)
                = Inr (options qu ! nat (correct_index qu)))"
proof
  let ?sh = "random_shuffle perm (options qu)"
  let ?ct = "options qu ! nat (correct_index qu)"
  have m: "mset ?sh = mset (options qu)" by (rule mset_random_shuffle [OF p])
  {
    obtain k where k: "list_index ?sh ?ct = Inr k"
      and r: "send_question perm ud = store_and_send (session_cancel_timer ud) s qu ?sh k"
      using send_question_presents [OF s i qu wf p] by blast
    have c: "stored_current (send_question perm ud)
               = Some \<lparr>shuffled_opts = ?sh, cur_correct_index = k\<rparr>"
      by (simp add: r stored_current_def store_and_send_session)
    from list_index_Inr [OF k] have "py_index ?sh k = Inr ?ct"
      by (simp add: py_index_nat)
    with c m show "\<exists>c. stored_current (send_question perm ud) = Some c
            \<and> mset (shuffled_opts c) = mset (options qu)
            \<and> py_index (shuffled_opts c) (cur_correct_index c) = Inr ?ct"
      by simp
  }
  {
    obtain k where k: "list_index (map int perm) (correct_index qu) = Inr k"
      and r: "send_question_direct perm ud
                = store_and_send (ud\<lparr>ud_timer_job := None\<rparr>) s qu ?sh k"
      using send_question_direct_presents [OF s i qu wf p] by blast
    have c: "stored_current (send_question_direct perm ud)
               = Some \<lparr>shuffled_opts = ?sh, cur_correct_index = k\<rparr>"
      by (simp add: r stored_current_def store_and_send_session)
    from list_index_Inr [OF k] have k0: "0 \<le> k" and kl: "nat k < length perm"
      and kv': "map int perm ! nat k = correct_index qu" by simp_all
    from kv' kl have kv: "int (perm ! nat k) = correct_index qu" by (simp only: nth_map)
    then have "perm ! nat k = nat (correct_index qu)" by linarith
    then have "?sh ! nat k = ?ct" using kl by (simp add: random_shuffle_def)
    moreover have "nat k < length ?sh" using kl by (simp add: random_shuffle_def)
    ultimately have "py_index ?sh k = Inr ?ct" using k0 by (simp add: py_index_nat)
    with c m show "\<exists>c. stored_current (send_question_direct perm ud) = Some c
            \<and> mset (shuffled_opts c) = mset (options qu)
            \<and> py_index (shuffled_opts c) (cur_correct_index c) = Inr ?ct"
      by simp
  }
qed

theorem shuffle_correctness_witness:
  "ud_session example_data = Some example_session
   \<and> 0 \<le> s_i example_session
   \<and> s_i example_session < int (length (s_questions example_session))
   \<and> capitals_question = s_questions example_session ! nat (s_i example_session)
   \<and> wf_question capitals_question
   \<and> is_perm [2, 0, 1] (length (options capitals_question))
   \<and> stored_current (send_question [2, 0, 1] example_data)
       = Some \<lparr>shuffled_opts = [''Berlin'', ''Paris'', ''London''], cur_correct_index = 1\<rparr>
   \<and> stored_current (send_question_direct [2, 0, 1] example_data)
       = Some \<lparr>shuffled_opts = [''Berlin'', ''Paris'', ''London''], cur_correct_index = 1\<rparr>"
  using shuffle_correctness [of example_data example_session capitals_question "[2, 0, 1]"]
  by (simp add: example_defs engine_defs wf_question_def is_perm_def)

subsection \<open>C3: how the new index of the correct option is found\<close>

text \<open>
  The claim C3 says that the new index is found by the position of the original correct
  option, so that it designates that option's place in the shuffle even when another
  option has the same text. \<open>send_question\<close> searches for the text instead: for the options
  a, a, b with the second one correct and the order kept, it stores index 0, where the
  first option sits, while \<open>send_question_direct\<close> stores index 1.
\<close>

theorem text_lookup_counterexample:
  "wf_question twin_question
   \<and> is_perm [0, 1, 2] (length (options twin_question))
   \<and> stored_current (send_question [0, 1, 2] twin_data)
       = Some \<lparr>shuffled_opts = [''a'', ''a'', ''b''], cur_correct_index = 0\<rparr>
   \<and> [0, 1, 2] ! nat 0 \<noteq> nat (correct_index twin_question)
   \<and> stored_current (send_question_direct [0, 1, 2] twin_data)
       = Some \<lparr>shuffled_opts = [''a'', ''a'', ''b''], cur_correct_index = 1\<rparr>"
  by (simp add: example_defs engine_defs wf_question_def is_perm_def)

text \<open>
  C3, amended: \<open>send_question_direct\<close> finds the new index by position: the stored index
  is where the original position \<open>correct_index\<close> went. \<open>send_question\<close> finds it by text:
  the stored index is the first place in the shuffle whose text equals the text of the
  correct option; it is the place of the original correct option whenever no other option
  has that text.
\<close>

theorem correct_index_location:
  assumes s: "ud_session ud = Some s"
    and i: "0 \<le> s_i s" "s_i s < int (length (s_questions s))"
    and qu: "qu = s_questions s ! nat (s_i s)"
    and wf: "wf_question qu"
    and p: "is_perm perm (length (options qu))"
  shows "(\<exists>c. stored_current (send_question_direct perm ud) = Some c
            \<and> 0 \<le> cur_correct_index c \<and> nat (cur_correct_index c) < length perm
            \<and> perm ! nat (cur_correct_index c) = nat (correct_index qu))
       \<and> (\<exists>c. stored_current (send_question perm ud) = Some c
            \<and> 0 \<le> cur_correct_index c \<and> nat (cur_correct_index c) < length perm
            \<and> shuffled_opts c ! nat (cur_correct_index c) = options qu ! nat (correct_index qu)
            \<and> (\<forall>j < nat (cur_correct_index c).
                  shuffled_opts c ! j \<noteq> options qu ! nat (correct_index qu))
            \<and> ((\<forall>j < length (options qu).
                    options qu ! j = options qu ! nat (correct_index qu)
                    \<longrightarrow> j = nat (correct_index qu))
                 \<longrightarrow> perm ! nat (cur_correct_index c) = nat (correct_index qu)))"
proof
  let ?sh = "random_shuffle perm (options qu)"
  let ?ct = "options qu ! nat (correct_index qu)"
  have len: "length ?sh = length perm" by (simp add: random_shuffle_def)
  have r: "\<forall>j \<in> set perm. j < length (options qu)"
    using p by (simp add: is_perm_def list_all_iff)
  {
    obtain k where k: "list_index (map int perm) (correct_index qu) = Inr k"
      and res: "send_question_direct perm ud
                = store_and_send (ud\<lparr>ud_timer_job := None\<rparr>) s qu ?sh k"
      using send_question_direct_presents [OF s i qu wf p] by blast
    have c: "stored_current (send_question_direct perm ud)
               = Some \<lparr>shuffled_opts = ?sh, cur_correct_index = k\<rparr>"
      by (simp add: res stored_current_def store_and_send_session)
    from list_index_Inr [OF k] have k0: "0 \<le> k" and kl: "nat k < length perm"
      and kv': "map int perm ! nat k = correct_index qu" by simp_all
    from kv' kl have "int (perm ! nat k) = correct_index qu" by (simp only: nth_map)
    then have "perm ! nat k = nat (correct_index qu)" by linarith
    with c k0 kl show "\<exists>c. stored_current (send_question_direct perm ud) = Some c
            \<and> 0 \<le> cur_correct_index c \<and> nat (cur_correct_index c) < length perm
            \<and> perm ! nat (cur_correct_index c) = nat (correct_index qu)"
      by simp
  }
  {
    obtain k where k: "list_index ?sh ?ct = Inr k"
      and res: "send_question perm ud = store_and_send (session_cancel_timer ud) s qu ?sh k"
      using send_question_presents [OF s i qu wf p] by blast
    have c: "stored_current (send_question perm ud)
               = Some \<lparr>shuffled_opts = ?sh, cur_correct_index = k\<rparr>"
      by (simp add: res stored_current_def store_and_send_session)
    from list_index_Inr [OF k] have k0: "0 \<le> k" and kl: "nat k < length perm"
      and kv: "?sh ! nat k = ?ct" and first: "\<forall>j < nat k. ?sh ! j \<noteq> ?ct"
      by (simp_all add: len)
    have pk: "perm ! nat k < length (options qu)" using r kl by simp
    have at: "options qu ! (perm ! nat k) = ?ct" using kv kl by (simp add: random_shuffle_def)
    have uniq: "(\<forall>j < length (options qu). options qu ! j = ?ct \<longrightarrow> j = nat (correct_index qu))
                 \<longrightarrow> perm ! nat k = nat (correct_index qu)"
      using pk at by blast
    from c k0 kl kv first uniq
    show "\<exists>c. stored_current (send_question perm ud) = Some c
            \<and> 0 \<le> cur_correct_index c \<and> nat (cur_correct_index c) < length perm
            \<and> shuffled_opts c ! nat (cur_correct_index c) = ?ct
            \<and> (\<forall>j < nat (cur_correct_index c). shuffled_opts c ! j \<noteq> ?ct)
            \<and> ((\<forall>j < length (options qu). options qu ! j = ?ct \<longrightarrow> j = nat (correct_index qu))
                 \<longrightarrow> perm ! nat (cur_correct_index c) = nat (correct_index qu))"
      by simp
  }
qed

theorem correct_index_location_witness:
  "ud_session example_data = Some example_session
   \<and> 0 \<le> s_i example_session
   \<and> s_i example_session < int (length (s_questions example_session))
   \<and> capitals_question = s_questions example_session ! nat (s_i example_session)
   \<and> wf_question capitals_question
   \<and> is_perm [2, 0, 1] (length (options capitals_question))
   \<and> stored_current (send_question_direct [2, 0, 1] example_data)
       = Some \<lparr>shuffled_opts = [''Berlin'', ''Paris'', ''London''], cur_correct_index = 1\<rparr>
   \<and> stored_current (send_question [2, 0, 1] example_data)
       = Some \<lparr>shuffled_opts = [''Berlin'', ''Paris'', ''London''], cur_correct_index = 1\<rparr>
   \<and> distinct (options capitals_question)
   \<and> [2, 0, 1] ! nat 1 = nat (correct_index capitals_question)"
  using correct_index_location [of example_data example_session capitals_question "[2, 0, 1]"]
  by (simp add: example_defs engine_defs wf_question_def is_perm_def)

subsection \<open>C4: starting on an empty list of questions\<close>

text \<open>
  C4 says that a start on an empty list fails with the notice that there are no
  questions and creates no session. The branch \<open>"start|..."\<close> does that. The branch
  \<open>"startfile|..."\<close> has no such test: on a file without questions it starts a session,
  announces the test and at once sends the summary 0/0.
\<close>

theorem startfile_skips_empty_check:
  "on_callback example_blocks [[], []] no_user_data (Cb_start ''b3'' ''final'')
     = (no_user_data, [No_questions_in_block], None)
   \<and> on_callback example_blocks [[], []] no_user_data (Cb_startfile ''empty.json'' ''final'')
     = (no_user_data, [Starting_test, Test_finished 0 0 Pct_zero], None)"
  by (simp add: example_defs on_callback_def build_test_questions_def pick_random_def
      random_sample_def FINAL_N_def draw_def or_raise_def after_sending_def start_session_def
      send_question_def finish_session_def session_cancel_timer_def summary_pct_def
      find_block_def MAIN_BLOCKS_def)

subsection \<open>C5: when the count of correct answers changes\<close>

text \<open>
  C5 says that the count goes up exactly once per question that is answered correctly.
  In the branch of the correct answer \<open>session["correct"] += 1\<close> comes before the read
  \<open>letters[ci]\<close> of the notice, and \<open>session["i"] += 1\<close> after it. For a question of 27
  options whose correct option is shuffled to index 26 (the loader keeps such a
  question), presenting it stores the index and the \<open>qid\<close> and then raises on the 27th
  letter; a press with index 26 then adds one to the count and raises before the position
  moves, so the \<open>qid\<close> stays current and the next such press adds one again: one
  question, never resolved, is counted twice.
\<close>

theorem one_question_counted_twice:
  "wf_question wide_question
   \<and> is_perm keep_order_27 (length (options wide_question))
   \<and> sent (run wide_blocks no_user_data wide_start) = [Starting_test]
   \<and> map_option s_qid (ud_session (state_of (run wide_blocks no_user_data wide_start))) = Some 1
   \<and> map_option cur_ci (ud_session (state_of (run wide_blocks no_user_data wide_start)))
       = Some 26
   \<and> map_option s_correct (ud_session (state_of (run wide_blocks no_user_data wide_start)))
       = Some 0
   \<and> map_option s_correct
        (ud_session (state_of (run wide_blocks no_user_data (wide_start @ [wide_press]))))
       = Some 1
   \<and> map_option s_qid
        (ud_session (state_of (run wide_blocks no_user_data (wide_start @ [wide_press]))))
       = Some 1
   \<and> map_option s_i
        (ud_session (state_of (run wide_blocks no_user_data (wide_start @ [wide_press]))))
       = Some 0
   \<and> map_option s_correct
        (ud_session
           (state_of (run wide_blocks no_user_data (wide_start @ [wide_press, wide_press]))))
       = Some 2
   \<and> map_option s_i
        (ud_session
           (state_of (run wide_blocks no_user_data (wide_start @ [wide_press, wide_press]))))
       = Some 0
   \<and> sent (run wide_blocks no_user_data (wide_start @ [wide_press, wide_press]))
       = [Starting_test]"
  by (simp add: example_defs engine_defs on_event_def on_callback_def on_answer_def
      build_test_questions_def find_block_def MAIN_BLOCKS_def random_sample_def draw_def
      start_session_def wf_question_def is_perm_def)

subsection \<open>C6: the bounds on the counters\<close>

text \<open>
  C6 says that \<open>0 \<le> correct \<le> i \<le> len(questions)\<close> holds in every reachable state.
  From the start of the bot, with a loaded question of 27 options whose correct option
  is left at index 26, the start of the test and two presses with index 26 end in a
  session with \<open>correct = 2\<close>, \<open>i = 0\<close> and one question: every one of the three handlers
  raised \<open>IndexError\<close>, and what they had assigned before stays. A handler that then
  returns without an exception finds and leaves the bounds broken.
\<close>

theorem counters_out_of_bounds:
  "load_questions
     [\<lparr>item_q = ''Which one?'', item_options = options wide_question,
       item_correct_index = 26, item_explanation = []\<rparr>] = [wide_question]
   \<and> raised (run wide_blocks no_user_data (wide_start @ [wide_press, wide_press]))
       = [IndexError, IndexError, IndexError]
   \<and> map_option (\<lambda>s. (s_correct s, s_i s, length (s_questions s)))
        (ud_session
           (state_of (run wide_blocks no_user_data (wide_start @ [wide_press, wide_press]))))
       = Some (2, 0, 1)
   \<and> \<not> session_inv
          (state_of (run wide_blocks no_user_data (wide_start @ [wide_press, wide_press])))
   \<and> raised
        (on_event wide_blocks []
           (state_of (run wide_blocks no_user_data (wide_start @ [wide_press, wide_press])))
           (Callback Cb_noop)) = None
   \<and> \<not> session_inv
          (state_of
             (run wide_blocks no_user_data
                (wide_start @ [wide_press, wide_press, ([], Callback Cb_noop)])))"
  by (simp add: example_defs engine_defs on_event_def on_callback_def on_answer_def
      build_test_questions_def find_block_def MAIN_BLOCKS_def random_sample_def draw_def
      start_session_def session_inv_def)

subsection \<open>C7: the sequence of \<open>qid\<close> values\<close>

text \<open>
  C7: \<open>start_session\<close> sets \<open>qid\<close> to 0. Each of \<open>send_question\<close> and
  \<open>send_question_direct\<close> sends at most one question, with the \<open>qid\<close> one above the
  session's, leaves the \<open>qid\<close> of the session as it was or one higher, and, when it
  returns without an exception and keeps the session, has stored that higher \<open>qid\<close> and
  sent the question with it. Over any run of events that start no new session, the
  \<open>qid\<close> values of the questions sent are strictly increasing, all above the \<open>qid\<close> at
  the beginning, and the \<open>qid\<close> of the session never decreases; so no value goes to two
  presentations.
\<close>

theorem qid_increments:
  assumes s: "ud_session ud = Some s"
  shows "map_option s_qid (ud_session (start_session ud0 title questions)) = Some 0
       \<and> (presented_qids (sent (send_question perm ud)) = []
            \<or> presented_qids (sent (send_question perm ud)) = [s_qid s + 1])
       \<and> (\<forall>s'. ud_session (state_of (send_question perm ud)) = Some s' \<longrightarrow>
              (s_qid s' = s_qid s \<or> s_qid s' = s_qid s + 1)
              \<and> (raised (send_question perm ud) = None \<longrightarrow>
                   s_qid s' = s_qid s + 1
                   \<and> presented_qids (sent (send_question perm ud)) = [s_qid s + 1]))
       \<and> (presented_qids (sent (send_question_direct perm ud)) = []
            \<or> presented_qids (sent (send_question_direct perm ud)) = [s_qid s + 1])
       \<and> (\<forall>s'. ud_session (state_of (send_question_direct perm ud)) = Some s' \<longrightarrow>
              (s_qid s' = s_qid s \<or> s_qid s' = s_qid s + 1)
              \<and> (raised (send_question_direct perm ud) = None \<longrightarrow>
                   s_qid s' = s_qid s + 1
                   \<and> presented_qids (sent (send_question_direct perm ud)) = [s_qid s + 1]))
       \<and> (list_all (\<lambda>p. \<not> starts_session (snd p)) evs \<longrightarrow>
            sorted_wrt (<) (presented_qids (sent (run blocks ud evs)))
            \<and> (\<forall>k \<in> set (presented_qids (sent (run blocks ud evs))). s_qid s < k)
            \<and> (\<forall>s'. ud_session (state_of (run blocks ud evs)) = Some s'
                    \<longrightarrow> s_qid s \<le> s_qid s'))"
proof -
  have start: "map_option s_qid (ud_session (start_session ud0 title questions)) = Some 0"
    by (simp add: start_session_def)
  have facts: "(presented_qids (sent r) = [] \<or> presented_qids (sent r) = [s_qid s + 1])
       \<and> (\<forall>s'. ud_session (state_of r) = Some s' \<longrightarrow>
              (s_qid s' = s_qid s \<or> s_qid s' = s_qid s + 1)
              \<and> (raised r = None \<longrightarrow>
                   s_qid s' = s_qid s + 1 \<and> presented_qids (sent r) = [s_qid s + 1]))"
    if "next_outcome s r" for r
    using that by (auto simp: next_outcome_def split: option.splits if_splits)
  note a = facts [OF send_question_outcome [OF s, of perm]]
  note b = facts [OF send_question_direct_outcome [OF s, of perm]]
  have c: "list_all (\<lambda>p. \<not> starts_session (snd p)) evs \<longrightarrow>
            sorted_wrt (<) (presented_qids (sent (run blocks ud evs)))
            \<and> (\<forall>k \<in> set (presented_qids (sent (run blocks ud evs))). s_qid s < k)
            \<and> (\<forall>s'. ud_session (state_of (run blocks ud evs)) = Some s'
                    \<longrightarrow> s_qid s \<le> s_qid s')"
    using run_qids [OF s] by blast
  from start a b c show ?thesis by (intro conjI) blast+
qed

theorem qid_increments_witness:
  "ud_session example_data = Some example_session
   \<and> s_qid example_session = 1
   \<and> raised (send_question [1, 0, 2] example_data) = None
   \<and> presented_qids (sent (send_question [1, 0, 2] example_data)) = [2]
   \<and> raised (send_question_direct [1, 0, 2] example_data) = None
   \<and> presented_qids (sent (send_question_direct [1, 0, 2] example_data)) = [2]
   \<and> list_all (\<lambda>p. \<not> starts_session (snd p)) example_resolves
   \<and> presented_qids (sent (run example_blocks example_data example_resolves)) = [2, 3]
   \<and> map_option s_qid (ud_session (state_of (run example_blocks example_data example_resolves)))
       = Some 3"
  using qid_increments [of example_data example_session no_user_data "[]" "[]" "[1, 0, 2]"
      example_resolves example_blocks]
  by (simp add: example_defs engine_defs presented_qids_def map_filter_simps keyboard_qid_def
      on_event_def on_callback_def on_answer_def timeout_question_def draw_def)

subsection \<open>C8: the sample of the final mode\<close>

text \<open>
  C8: for every pool and every permutation drawn by \<open>random.sample\<close>,
  \<open>pick_random(pool, FINAL_N)\<close> returns without raising a list of length
  \<open>min(20, len(pool))\<close> taken from pairwise distinct positions of the pool, so it has no
  repeated question when the pool has none; a pool of at most 20 questions is returned
  whole, rearranged.
\<close>

theorem pick_random_final:
  assumes p: "is_perm perm (length pool)"
  shows "\<exists>qs idxs. pick_random perm pool FINAL_N = Inr qs
           \<and> length qs = min 20 (length pool)
           \<and> distinct idxs \<and> (\<forall>j \<in> set idxs. j < length pool)
           \<and> qs = map (\<lambda>j. pool ! j) idxs
           \<and> (distinct pool \<longrightarrow> distinct qs)
           \<and> (length pool \<le> 20 \<longrightarrow> mset qs = mset pool)"
proof -
  define m where "m = min 20 (length pool)"
  define idxs where "idxs = take m perm"
  define qs where "qs = map (\<lambda>j. pool ! j) idxs"
  have lp: "length perm = length pool" and dp: "distinct perm"
    and rp: "\<forall>j \<in> set perm. j < length pool"
    using p by (simp_all add: is_perm_def list_all_iff)
  have res: "pick_random perm pool FINAL_N = Inr qs"
  proof (cases "length pool \<le> 20")
    case True
    then have "m = length pool" by (simp add: m_def)
    with True show ?thesis
      by (simp add: pick_random_def random_sample_def FINAL_N_def qs_def idxs_def)
  next
    case False
    then have "m = 20" by (simp add: m_def)
    with False show ?thesis
      by (simp add: pick_random_def random_sample_def FINAL_N_def qs_def idxs_def)
  qed
  have len: "length qs = min 20 (length pool)"
    using lp by (simp add: qs_def idxs_def m_def)
  have d: "distinct idxs" using dp by (simp add: idxs_def)
  have r: "\<forall>j \<in> set idxs. j < length pool"
  proof
    fix j assume "j \<in> set idxs"
    then have "j \<in> set perm" unfolding idxs_def by (rule in_set_takeD)
    with rp show "j < length pool" by simp
  qed
  have dq: "distinct pool \<longrightarrow> distinct qs"
  proof
    assume "distinct pool"
    then have "inj_on (\<lambda>j. pool ! j) (set idxs)" using r by (simp add: inj_on_nth)
    with d show "distinct qs" by (simp add: qs_def distinct_map)
  qed
  have whole: "length pool \<le> 20 \<longrightarrow> mset qs = mset pool"
  proof
    assume "length pool \<le> 20"
    then have "idxs = perm" using lp by (simp add: idxs_def m_def)
    then have "qs = random_shuffle perm pool" by (simp add: qs_def random_shuffle_def)
    then show "mset qs = mset pool" using mset_random_shuffle [OF p] by simp
  qed
  have "pick_random perm pool FINAL_N = Inr qs
           \<and> length qs = min 20 (length pool)
           \<and> distinct idxs \<and> (\<forall>j \<in> set idxs. j < length pool)
           \<and> qs = map (\<lambda>j. pool ! j) idxs
           \<and> (distinct pool \<longrightarrow> distinct qs)
           \<and> (length pool \<le> 20 \<longrightarrow> mset qs = mset pool)"
    by (intro conjI res len d r dq whole qs_def)
  then show ?thesis by (intro exI)
qed

theorem pick_random_final_witness:
  "is_perm [2, 0, 1] (length [capitals_question, twin_question, capitals_question\<lparr>q_text := ''Again?''\<rparr>])
   \<and> pick_random [2, 0, 1] [capitals_question, twin_question, capitals_question\<lparr>q_text := ''Again?''\<rparr>] FINAL_N
       = Inr [capitals_question\<lparr>q_text := ''Again?''\<rparr>, capitals_question, twin_question]"
  using pick_random_final [of "[2, 0, 1]" "[capitals_question, twin_question, capitals_question\<lparr>q_text := ''Again?''\<rparr>]"]
  by (simp add: is_perm_def pick_random_def random_sample_def FINAL_N_def)

subsection \<open>C9: an answer with an index outside the options\<close>

text \<open>
  C9 says that an answer whose index is outside the current options counts as a wrong
  answer and never raises. The handler guards the read of the options, but not the read
  \<open>letters[idx]\<close> in the notice: with index 26 on a question of three options it
  raises \<open>IndexError\<close> after cancelling the timer, the position does not advance and
  nothing is sent. With index 5, inside \<open>letters\<close>, the answer does count as wrong.
\<close>

theorem answer_index_beyond_letters_raises:
  "on_callback example_blocks [[0, 1, 2]] example_data (Cb_ans 1 26)
     = (example_data\<lparr>ud_timer_job := None\<rparr>, [], Some IndexError)
   \<and> raised (on_callback example_blocks [[0, 1, 2]] example_data (Cb_ans 1 5)) = None
   \<and> hd (sent (on_callback example_blocks [[0, 1, 2]] example_data (Cb_ans 1 5)))
       = Answer_incorrect CHR ''F'' [] CHR ''B'' ''Paris''
   \<and> map_option s_i
        (ud_session (state_of (on_callback example_blocks [[0, 1, 2]] example_data (Cb_ans 1 5))))
       = Some 1
   \<and> map_option s_correct
        (ud_session (state_of (on_callback example_blocks [[0, 1, 2]] example_data (Cb_ans 1 5))))
       = Some 0"
  by (simp add: example_defs engine_defs on_callback_def on_answer_def draw_def)

subsection \<open>C10: finishing a session without questions\<close>

text \<open>
  C10: when a session whose list of questions is empty reaches the finish step, by
  \<open>send_question\<close>, \<open>send_question_direct\<close> or \<open>finish_session\<close>, no exception is raised,
  the summary reports the percentage 0.0 although the division itself would raise
  \<open>ZeroDivisionError\<close>, and the session is removed.
\<close>

theorem empty_session_finish:
  assumes "ud_session ud = Some s" and "s_questions s = []" and "0 \<le> s_i s"
  shows "send_question perm ud =
           (ud\<lparr>ud_session := None, ud_timer_job := None\<rparr>,
            [Test_finished (s_correct s) 0 Pct_zero], None)
       \<and> send_question_direct perm ud =
           (ud\<lparr>ud_session := None\<rparr>, [Test_finished (s_correct s) 0 Pct_zero], None)
       \<and> finish_session ud =
           (ud\<lparr>ud_session := None, ud_timer_job := None\<rparr>,
            [Test_finished (s_correct s) 0 Pct_zero], None)
       \<and> round1_percent (s_correct s) (length (s_questions s)) = Inl ZeroDivisionError"
  using assms
  by (simp add: send_question_def send_question_direct_def finish_session_def
      session_cancel_timer_def summary_pct_def or_raise_def round1_percent_def)

theorem empty_session_finish_witness:
  "s_questions (the (ud_session empty_session_data)) = []
   \<and> 0 \<le> s_i (the (ud_session empty_session_data))
   \<and> send_question [] empty_session_data
       = (no_user_data, [Test_finished 0 0 Pct_zero], None)
   \<and> send_question_direct [] empty_session_data
       = (no_user_data, [Test_finished 0 0 Pct_zero], None)
   \<and> finish_session empty_session_data
       = (no_user_data, [Test_finished 0 0 Pct_zero], None)"
  using empty_session_finish [of empty_session_data "the (ud_session empty_session_data)" "[]"]
  by (simp add: empty_session_data_def no_user_data_def)

end
